theory Spec2Isabelle
  imports Main "HOL-Library.AList"
begin

section \<open>The page: elements, attributes, selectors\<close>

text \<open>
  The content script works on live DOM nodes. An element is modelled with its
  identity (the node identity that JavaScript references compare), its tag name, its
  attributes in source order, its own text and its element children in document order.
  Strings are UTF-8 byte strings; \<open>toLowerCase\<close> is modelled on the ASCII letters, which
  are the only ones the script's comparisons with \<open>send\<close> can observe. The
  \<open>console.log\<close> diagnostics (\<open>LOG\<close>) change nothing on the page and are left out.
\<close>

datatype element =
  Element (ident: nat) (tagName: string) (attrs: "(string \<times> string) list")
          (textContent: string) (children: "element list")

definition PROCESSED_ATTR :: string where
  "PROCESSED_ATTR = ''data-sab-processed''"

definition BTN_ATTR :: string where
  "BTN_ATTR = ''data-sab-btn''"

definition getAttribute :: "element \<Rightarrow> string \<Rightarrow> string option" where
  "getAttribute el name = map_of (attrs el) name"

definition hasAttribute :: "element \<Rightarrow> string \<Rightarrow> bool" where
  "hasAttribute el name = (getAttribute el name \<noteq> None)"

text \<open>\<open>el.getAttribute(name) || ""\<close>: a missing attribute reads as the empty string.\<close>

definition getAttributeOr :: "element \<Rightarrow> string \<Rightarrow> string" where
  "getAttributeOr el name = (case getAttribute el name of None \<Rightarrow> [] | Some v \<Rightarrow> v)"

text \<open>Proper descendants in document order, the range of \<open>querySelectorAll\<close>.\<close>

fun descendants :: "element \<Rightarrow> element list" where
  "descendants (Element i t a x cs) = concat (map (\<lambda>c. c # descendants c) cs)"

definition subtree :: "element \<Rightarrow> element list" where
  "subtree el = el # descendants el"

definition querySelectorAll :: "element \<Rightarrow> (element \<Rightarrow> bool) \<Rightarrow> element list" where
  "querySelectorAll el sel = filter sel (descendants el)"

definition querySelector :: "element \<Rightarrow> (element \<Rightarrow> bool) \<Rightarrow> element option" where
  "querySelector el sel = find sel (descendants el)"

text \<open>\<open>node.contains(other)\<close> is inclusive: a node contains itself.\<close>

definition contains :: "element \<Rightarrow> nat \<Rightarrow> bool" where
  "contains el i = (i \<in> ident ` set (subtree el))"

subsection \<open>Strings\<close>

fun startsWith :: "string \<Rightarrow> string \<Rightarrow> bool" where
  "startsWith s [] = True"
| "startsWith [] (p # ps) = False"
| "startsWith (c # cs) (p # ps) = (c = p \<and> startsWith cs ps)"

definition lowerChar :: "char \<Rightarrow> char" where
  "lowerChar c =
     (let n = (of_char c :: nat) in if 65 \<le> n \<and> n \<le> 90 then char_of (n + 32) else c)"

definition toLowerCase :: "string \<Rightarrow> string" where
  "toLowerCase s = map lowerChar s"

text \<open>ASCII whitespace separates the tokens of a \<open>class\<close> attribute.\<close>

definition isSpace :: "char \<Rightarrow> bool" where
  "isSpace c = (c = CHR '' '' \<or> c = CHR 0x09 \<or> c = CHR 0x0A \<or> c = CHR 0x0C \<or> c = CHR 0x0D)"

fun tokens :: "string \<Rightarrow> string \<Rightarrow> string list" where
  "tokens cur [] = (if cur = [] then [] else [cur])"
| "tokens cur (c # cs) =
     (if isSpace c then (if cur = [] then tokens [] cs else cur # tokens [] cs)
      else tokens (cur @ [c]) cs)"

definition className :: "element \<Rightarrow> string" where
  "className el = getAttributeOr el ''class''"

definition classList :: "element \<Rightarrow> string list" where
  "classList el = tokens [] (className el)"

subsection \<open>Selectors used by the script\<close>

definition hasClass :: "string \<Rightarrow> element \<Rightarrow> bool" where
  "hasClass c el = (c \<in> set (classList el))"

definition attrEquals :: "string \<Rightarrow> string \<Rightarrow> element \<Rightarrow> bool" where
  "attrEquals name v el = (getAttribute el name = Some v)"

definition attrPrefix :: "string \<Rightarrow> string \<Rightarrow> element \<Rightarrow> bool" where
  "attrPrefix name p el =
     (case getAttribute el name of None \<Rightarrow> False | Some v \<Rightarrow> p \<noteq> [] \<and> startsWith v p)"

text \<open>\<open>[aria-label="Send"], [aria-label^="Send "]\<close>\<close>

definition ariaSendSelector :: "element \<Rightarrow> bool" where
  "ariaSendSelector el =
     (attrEquals ''aria-label'' ''Send'' el \<or> attrPrefix ''aria-label'' ''Send '' el)"

section \<open>Element matcher\<close>

text \<open>
  The test both loops of \<open>findSendButton\<close> apply to the lowercased text:
  \<open>t === "send" || (t.startsWith("send ") && !t.startsWith("send &"))\<close>.
\<close>

definition acceptsSend :: "string \<Rightarrow> bool" where
  "acceptsSend t = (t = ''send'' \<or> (startsWith t ''send '' \<and> \<not> startsWith t ''send &''))"

text \<open>The first loop: candidates by class, judged on \<open>data-tooltip\<close>.\<close>

fun scanByClass :: "element list \<Rightarrow> element option" where
  "scanByClass [] = None"
| "scanByClass (el # els) =
     (if hasAttribute el BTN_ATTR then scanByClass els
      else if acceptsSend (toLowerCase (getAttributeOr el ''data-tooltip'')) then Some el
      else scanByClass els)"

text \<open>The second loop: candidates by \<open>aria-label\<close>, judged on \<open>aria-label\<close>.\<close>

fun scanByAriaLabel :: "element list \<Rightarrow> element option" where
  "scanByAriaLabel [] = None"
| "scanByAriaLabel (el # els) =
     (if hasAttribute el BTN_ATTR then scanByAriaLabel els
      else if acceptsSend (toLowerCase (getAttributeOr el ''aria-label'')) then Some el
      else scanByAriaLabel els)"

definition findSendButton :: "element \<Rightarrow> element option" where
  "findSendButton composeEl =
     (case scanByClass (querySelectorAll composeEl (hasClass ''aoO'')) of
        Some el \<Rightarrow> Some el
      | None \<Rightarrow> scanByAriaLabel (querySelectorAll composeEl ariaSendSelector))"


text \<open>
  \<open>findNativeSendAndArchiveButton\<close>: one selector list with four prefix tests, then the
  loop that skips the script's own control.
\<close>

definition nativeSelector :: "element \<Rightarrow> bool" where
  "nativeSelector el =
     (attrPrefix ''data-tooltip'' ''Send & Archive'' el \<or>
      attrPrefix ''data-tooltip'' ''Send and archive'' el \<or>
      attrPrefix ''aria-label'' ''Send & Archive'' el \<or>
      attrPrefix ''aria-label'' ''Send and archive'' el)"

fun firstNotOurs :: "element list \<Rightarrow> element option" where
  "firstNotOurs [] = None"
| "firstNotOurs (el # els) = (if hasAttribute el BTN_ATTR then firstNotOurs els else Some el)"

definition findNativeSendAndArchiveButton :: "element \<Rightarrow> element option" where
  "findNativeSendAndArchiveButton composeEl =
     firstNotOurs (querySelectorAll composeEl nativeSelector)"

text \<open>
  The document is modelled by its \<open>body\<close> element; \<open>document.querySelector\<close> ranges
  over the body and everything below it.
\<close>

definition docQuerySelector :: "element \<Rightarrow> (element \<Rightarrow> bool) \<Rightarrow> element option" where
  "docQuerySelector doc sel = find sel (subtree doc)"

definition docQuerySelectorAll :: "element \<Rightarrow> (element \<Rightarrow> bool) \<Rightarrow> element list" where
  "docQuerySelectorAll doc sel = filter sel (subtree doc)"

definition getElement :: "element \<Rightarrow> nat \<Rightarrow> element option" where
  "getElement doc i = find (\<lambda>e. ident e = i) (subtree doc)"

text \<open>JavaScript's \<open>a || b\<close> on element-or-null values.\<close>

definition orElse :: "'a option \<Rightarrow> 'a option \<Rightarrow> 'a option" where
  "orElse a b = (case a of Some x \<Rightarrow> Some x | None \<Rightarrow> b)"

text \<open>The \<open>archiveBtn\<close> expression of \<open>archiveCurrentConversation\<close>.\<close>

definition archiveBtn :: "element \<Rightarrow> element option" where
  "archiveBtn doc =
     orElse (docQuerySelector doc (attrEquals ''data-tooltip'' ''Archive''))
    (orElse (docQuerySelector doc (attrPrefix ''data-tooltip'' ''Archive (''))
    (orElse (docQuerySelector doc (attrEquals ''aria-label'' ''Archive''))
    (orElse (docQuerySelector doc (attrPrefix ''aria-label'' ''Archive''))
    (orElse (docQuerySelector doc (\<lambda>el. tagName el = ''button'' \<and> attrEquals ''title'' ''Archive'' el))
            (find (\<lambda>el. startsWith (getAttributeOr el ''data-tooltip'') ''Archive'' \<or>
                         startsWith (getAttributeOr el ''aria-label'') ''Archive'')
                  (docQuerySelectorAll doc (attrEquals ''role'' ''button'')))))))"

text \<open>
  Inclusive ancestors of the element with identity \<open>i\<close>, nearest first; empty when the
  document does not hold it. \<open>el.closest(sel)\<close> is the first of them that matches.
\<close>

fun pathTo :: "nat \<Rightarrow> element \<Rightarrow> element list" where
  "pathTo i (Element j t a x cs) =
     (if i = j then [Element j t a x cs]
      else (case find (\<lambda>p. p \<noteq> []) (map (pathTo i) cs) of
              None \<Rightarrow> []
            | Some p \<Rightarrow> p @ [Element j t a x cs]))"

definition closest :: "element list \<Rightarrow> (element \<Rightarrow> bool) \<Rightarrow> element option" where
  "closest chain sel = find sel chain"

definition getPopupComposeRoot :: "element list \<Rightarrow> element option" where
  "getPopupComposeRoot chain = closest chain (hasClass ''dw'')"

text \<open>
  The loop of \<open>findComposeWindows\<close>, with its \<open>seen\<close> set (of node identities) and its
  \<open>results\<close> array.
\<close>

fun collectRoots ::
  "element \<Rightarrow> element \<Rightarrow> element list \<Rightarrow> nat list \<Rightarrow> element list \<Rightarrow> element list" where
  "collectRoots doc dwEl [] seen results = results"
| "collectRoots doc dwEl (el # els) seen results =
     (if hasAttribute el BTN_ATTR then collectRoots doc dwEl els seen results
      else
        let root = (case closest (pathTo (ident el) doc) (hasClass ''nH'') of
                      Some c \<Rightarrow> if contains dwEl (ident c) then c else dwEl
                    | None \<Rightarrow> dwEl)
        in if ident root \<in> set seen then collectRoots doc dwEl els seen results
           else collectRoots doc dwEl els (ident root # seen) (results @ [root]))"

definition sendCandidates :: "element \<Rightarrow> element list" where
  "sendCandidates dwEl =
     querySelectorAll dwEl (hasClass ''aoO'') @ querySelectorAll dwEl ariaSendSelector"

definition findComposeWindows :: "element \<Rightarrow> element \<Rightarrow> element list" where
  "findComposeWindows doc dwEl = collectRoots doc dwEl (sendCandidates dwEl) [] []"

section \<open>Building the synthetic control\<close>

definition isWordChar :: "char \<Rightarrow> bool" where
  "isWordChar c =
     (let n = (of_char c :: nat)
      in (48 \<le> n \<and> n \<le> 57) \<or> (65 \<le> n \<and> n \<le> 90) \<or> n = 95 \<or> (97 \<le> n \<and> n \<le> 122))"

text \<open>
  \<open>s.replace(/\baoO\b/, "")\<close>: the leftmost \<open>aoO\<close> that is a whole word is dropped.
  The flag says whether the character before the current position is a word character.
\<close>

fun replaceAoO :: "bool \<Rightarrow> string \<Rightarrow> string" where
  "replaceAoO prevWord [] = []"
| "replaceAoO prevWord (c # cs) =
     (if \<not> prevWord \<and> startsWith (c # cs) ''aoO'' \<and>
         (case drop 3 (c # cs) of [] \<Rightarrow> True | d # _ \<Rightarrow> \<not> isWordChar d)
      then drop 3 (c # cs)
      else c # replaceAoO (isWordChar c) cs)"

text \<open>
  \<open>String.prototype.trim\<close> strips white space and line terminators from both ends:
  TAB, LF, VT, FF, CR, SPACE, and in their UTF-8 encoding U+00A0, U+1680, U+2000 to
  U+200A, U+2028, U+2029, U+202F, U+205F, U+3000 and U+FEFF.
\<close>

definition whiteSpace :: "string list" where
  "whiteSpace =
     [[CHR 0x09], [CHR 0x0A], [CHR 0x0B], [CHR 0x0C], [CHR 0x0D], [CHR 0x20],
      [CHR 0xC2, CHR 0xA0],
      [CHR 0xE1, CHR 0x9A, CHR 0x80],
      [CHR 0xE2, CHR 0x80, CHR 0x80], [CHR 0xE2, CHR 0x80, CHR 0x81],
      [CHR 0xE2, CHR 0x80, CHR 0x82], [CHR 0xE2, CHR 0x80, CHR 0x83],
      [CHR 0xE2, CHR 0x80, CHR 0x84], [CHR 0xE2, CHR 0x80, CHR 0x85],
      [CHR 0xE2, CHR 0x80, CHR 0x86], [CHR 0xE2, CHR 0x80, CHR 0x87],
      [CHR 0xE2, CHR 0x80, CHR 0x88], [CHR 0xE2, CHR 0x80, CHR 0x89],
      [CHR 0xE2, CHR 0x80, CHR 0x8A],
      [CHR 0xE2, CHR 0x80, CHR 0xA8], [CHR 0xE2, CHR 0x80, CHR 0xA9],
      [CHR 0xE2, CHR 0x80, CHR 0xAF],
      [CHR 0xE2, CHR 0x81, CHR 0x9F],
      [CHR 0xE3, CHR 0x80, CHR 0x80],
      [CHR 0xEF, CHR 0xBB, CHR 0xBF]]"

text \<open>Strips, as long as there is one, a leading occurrence of one of the sequences \<open>ws\<close>.\<close>

function stripLeading :: "string list \<Rightarrow> string \<Rightarrow> string" where
  "stripLeading ws s =
     (case find (\<lambda>w. w \<noteq> [] \<and> startsWith s w) ws of
        None \<Rightarrow> s
      | Some w \<Rightarrow> stripLeading ws (drop (length w) s))"
  by pat_completeness auto

termination
proof (relation "measure (\<lambda>p. length (snd p))")
  show "wf (measure (\<lambda>p. length (snd p)))" by simp
next
  fix ws :: "string list" and s w :: string
  assume "find (\<lambda>w. w \<noteq> [] \<and> startsWith s w) ws = Some w"
  then have w: "w \<noteq> []" and p: "startsWith s w"
    by (induction ws) (auto split: if_splits)
  from w p have "s \<noteq> []" by (cases s; cases w) simp_all
  with w show "((ws, drop (length w) s), (ws, s)) \<in> measure (\<lambda>p. length (snd p))"
    by simp
qed

declare stripLeading.simps [simp del]

definition trim :: "string \<Rightarrow> string" where
  "trim s = rev (stripLeading (map rev whiteSpace) (rev (stripLeading whiteSpace s)))"

text \<open>
  \<open>buildButton\<close>. \<open>document.createElement\<close> yields a node of a new identity, which the
  model passes in.
\<close>

definition buildButton :: "nat \<Rightarrow> element \<Rightarrow> element" where
  "buildButton fresh sendBtn =
     Element fresh ''div''
       [(''class'', trim (replaceAoO False (className sendBtn)) @ '' aoO sab-btn''),
        (''role'', ''button''),
        (''tabindex'', ''1''),
        (BTN_ATTR, ''true''),
        (''aria-label'', ''Send & Archive''),
        (''data-tooltip'',
           ''Send this message and archive the conversation (Ctrl+Shift+Enter)'')]
       ''Send & Archive'' []"

section \<open>Writes to the document\<close>

fun setAttributeIn :: "nat \<Rightarrow> string \<Rightarrow> string \<Rightarrow> element \<Rightarrow> element" where
  "setAttributeIn r name v (Element i t a x cs) =
     Element i t (if i = r then AList.update name v a else a) x
       (map (setAttributeIn r name v) cs)"

text \<open>\<open>ref.insertAdjacentElement("afterend", new)\<close>: \<open>new\<close> becomes the next sibling of \<open>ref\<close>.\<close>

fun insertAfter :: "nat \<Rightarrow> element \<Rightarrow> element \<Rightarrow> element"
  and insertAfterList :: "nat \<Rightarrow> element \<Rightarrow> element list \<Rightarrow> element list" where
  "insertAfter ref new (Element i t a x cs) = Element i t a x (insertAfterList ref new cs)"
| "insertAfterList ref new [] = []"
| "insertAfterList ref new (c # cs) =
     (if ident c = ref then c # new # cs
      else insertAfter ref new c # insertAfterList ref new cs)"

definition appendChild :: "element \<Rightarrow> element \<Rightarrow> element" where
  "appendChild new parent =
     Element (ident parent) (tagName parent) (attrs parent) (textContent parent)
             (children parent @ [new])"

fun removeElement :: "nat \<Rightarrow> element \<Rightarrow> element" where
  "removeElement i (Element j t a x cs) =
     Element j t a x (map (removeElement i) (filter (\<lambda>c. ident c \<noteq> i) cs))"


section \<open>The script's state and its calls into the browser\<close>

text \<open>
  Closures handed to \<open>setTimeout\<close>, \<open>requestIdleCallback\<close>, \<open>MutationObserver\<close> and
  \<open>addEventListener\<close> are named by a constructor carrying the variables they capture
  (element references are identities).
\<close>

datatype callback =
    ArchiveDefault            \<comment> \<open>\<open>setTimeout(archiveCurrentConversation, 2000)\<close>\<close>
  | ArchiveRetry nat          \<comment> \<open>\<open>() => archiveCurrentConversation(retriesLeft - 1)\<close>, the argument\<close>
  | SendClick nat             \<comment> \<open>\<open>() => sendBtn.click()\<close>\<close>
  | InjectRetry nat nat       \<comment> \<open>\<open>() => tryInjectWithRetry(composeEl, retriesLeft - 1)\<close>\<close>
  | ScanAll                   \<comment> \<open>\<open>scanAll\<close>\<close>
  | ToastFade nat             \<comment> \<open>the outer timer of \<open>showToast\<close>\<close>
  | ToastRemove nat           \<comment> \<open>\<open>() => toast.remove()\<close>\<close>
  | StartObserver             \<comment> \<open>the first \<open>runWhenIdle\<close> callback\<close>
  | InitialScan               \<comment> \<open>the second \<open>runWhenIdle\<close> callback\<close>

datatype observer =
    MainObserver
  | RemovalObserver nat       \<comment> \<open>the observer of \<open>watchComposeForRemoval(composeEl, ...)\<close>\<close>

datatype handler =
    ChordHandler nat nat      \<comment> \<open>keydown on the region: \<open>composeEl\<close>, \<open>sendBtn\<close>\<close>
  | ButtonKeydown nat         \<comment> \<open>keydown on the synthetic control\<close>
  | ButtonClick nat nat       \<comment> \<open>click on the synthetic control: \<open>composeEl\<close>, \<open>sendBtn\<close>\<close>

datatype query =
    FindSendButton nat
  | FindNative nat
  | FindArchive

text \<open>
  The trace lists, in order, what the script does to the page and the browser. A
  \<open>Query\<close> entry marks a call of one of the finders; \<open>OnRemoved\<close> marks the call of a
  removal watcher's callback.
\<close>

datatype effect =
    Query query
  | DispatchEvent nat string
  | Click nat
  | SetAttribute nat string string
  | InsertAfter nat nat
  | AppendChild nat
  | RemoveElement nat
  | AddEventListener nat string bool handler
  | SetTimeout nat callback nat
  | ClearTimeout nat
  | RequestIdleCallback nat callback nat
  | Observe nat observer
  | Disconnect nat
  | OnRemoved nat
  | ShowToast string

record state =
  document :: element
  nextId :: nat
  timers :: "(nat \<times> nat \<times> callback) list"
  nextTimer :: nat
  idleSupported :: bool
  idleCallbacks :: "(nat \<times> nat \<times> callback) list"
  nextIdle :: nat
  scanTimer :: "nat option"
  observers :: "(nat \<times> observer) list"
  nextObserver :: nat
  listeners :: "(nat \<times> string \<times> bool \<times> handler) list"
  trace :: "effect list"

definition emit :: "effect list \<Rightarrow> state \<Rightarrow> state" where
  "emit es s = s\<lparr>trace := trace s @ es\<rparr>"

text \<open>\<open>setTimeout(cb, delay)\<close>; the handle it returns is \<open>nextTimer\<close> of the state before.\<close>

definition setTimeout :: "callback \<Rightarrow> nat \<Rightarrow> state \<Rightarrow> state" where
  "setTimeout cb delay s =
     s\<lparr>timers := timers s @ [(nextTimer s, delay, cb)],
       nextTimer := Suc (nextTimer s),
       trace := trace s @ [SetTimeout (nextTimer s) cb delay]\<rparr>"

definition clearTimeout :: "nat \<Rightarrow> state \<Rightarrow> state" where
  "clearTimeout t s =
     s\<lparr>timers := filter (\<lambda>e. fst e \<noteq> t) (timers s),
       trace := trace s @ [ClearTimeout t]\<rparr>"

definition requestIdleCallback :: "callback \<Rightarrow> nat \<Rightarrow> state \<Rightarrow> state" where
  "requestIdleCallback cb timeout s =
     s\<lparr>idleCallbacks := idleCallbacks s @ [(nextIdle s, timeout, cb)],
       nextIdle := Suc (nextIdle s),
       trace := trace s @ [RequestIdleCallback (nextIdle s) cb timeout]\<rparr>"

definition runWhenIdle :: "callback \<Rightarrow> nat \<Rightarrow> state \<Rightarrow> state" where
  "runWhenIdle fn timeoutMs s =
     (if idleSupported s then requestIdleCallback fn timeoutMs s
      else setTimeout fn timeoutMs s)"

definition observe :: "nat \<Rightarrow> observer \<Rightarrow> state \<Rightarrow> state" where
  "observe oid ob s =
     s\<lparr>observers := AList.update oid ob (observers s),
       trace := trace s @ [Observe oid ob]\<rparr>"

definition disconnect :: "nat \<Rightarrow> state \<Rightarrow> state" where
  "disconnect oid s =
     s\<lparr>observers := filter (\<lambda>e. fst e \<noteq> oid) (observers s),
       trace := trace s @ [Disconnect oid]\<rparr>"

definition addEventListener :: "nat \<Rightarrow> string \<Rightarrow> bool \<Rightarrow> handler \<Rightarrow> state \<Rightarrow> state" where
  "addEventListener target ty capture h s =
     s\<lparr>listeners := listeners s @ [(target, ty, capture, h)],
       trace := trace s @ [AddEventListener target ty capture h]\<rparr>"

definition setAttribute :: "nat \<Rightarrow> string \<Rightarrow> string \<Rightarrow> state \<Rightarrow> state" where
  "setAttribute r name v s =
     s\<lparr>document := setAttributeIn r name v (document s),
       trace := trace s @ [SetAttribute r name v]\<rparr>"

definition insertAdjacentAfter :: "nat \<Rightarrow> element \<Rightarrow> state \<Rightarrow> state" where
  "insertAdjacentAfter ref new s =
     s\<lparr>document := insertAfter ref new (document s),
       trace := trace s @ [InsertAfter ref (ident new)]\<rparr>"

section \<open>Toast notifier\<close>

text \<open>
  \<open>showToast\<close>: drop the element with id \<open>sab-toast\<close> if there is one, append a new one
  to the body, start the five-second timer. The inline style is presentation only and is
  not modelled.
\<close>

definition showToast :: "string \<Rightarrow> state \<Rightarrow> state" where
  "showToast message s =
     (let s0 = emit [ShowToast message] s;
          s1 = (case docQuerySelector (document s0) (attrEquals ''id'' ''sab-toast'') of
                  Some existing \<Rightarrow>
                    s0\<lparr>document := removeElement (ident existing) (document s0),
                       trace := trace s0 @ [RemoveElement (ident existing)]\<rparr>
                | None \<Rightarrow> s0);
          toast = Element (nextId s1) ''div'' [(''id'', ''sab-toast''), (''role'', ''alert'')]
                          message [];
          s2 = s1\<lparr>document := appendChild toast (document s1),
                  nextId := Suc (nextId s1),
                  trace := trace s1 @ [AppendChild (ident toast)]\<rparr>
      in setTimeout (ToastFade (ident toast)) 5000 s2)"

definition toastFade :: "nat \<Rightarrow> state \<Rightarrow> state" where
  "toastFade toast s = setTimeout (ToastRemove toast) 400 s"

definition toastRemove :: "nat \<Rightarrow> state \<Rightarrow> state" where
  "toastRemove toast s =
     s\<lparr>document := removeElement toast (document s),
       trace := trace s @ [RemoveElement toast]\<rparr>"

section \<open>Action sequencer\<close>

text \<open>\<open>simulateClick\<close>: the loop over the three event types, each dispatched on \<open>el\<close>.\<close>

definition simulateClick :: "nat \<Rightarrow> state \<Rightarrow> state" where
  "simulateClick el s =
     foldl (\<lambda>s' ty. emit [DispatchEvent el ty] s') s [''mousedown'', ''mouseup'', ''click'']"

definition failureMessage :: string where
  "failureMessage =
     ''Send & Archive: email sent, but the Archive button wasn't found. Please archive manually.''"

definition archiveCurrentConversation :: "nat \<Rightarrow> state \<Rightarrow> state" where
  "archiveCurrentConversation retriesLeft s =
     (let s1 = emit [Query FindArchive] s
      in case archiveBtn (document s1) of
           Some b \<Rightarrow> simulateClick (ident b) s1
         | None \<Rightarrow>
             if retriesLeft > 0 then setTimeout (ArchiveRetry (retriesLeft - 1)) 300 s1
             else showToast failureMessage s1)"

definition watchComposeForRemoval :: "nat \<Rightarrow> state \<Rightarrow> state" where
  "watchComposeForRemoval composeEl s =
     (observe (nextObserver s) (RemovalObserver composeEl) s)
       \<lparr>nextObserver := Suc (nextObserver s)\<rparr>"

text \<open>The \<open>onRemoved\<close> closure that \<open>triggerSendAndArchive\<close> passes to the watcher.\<close>

definition onRemoved :: "state \<Rightarrow> state" where
  "onRemoved s = setTimeout ArchiveDefault 2000 s"

text \<open>The callback of the removal observer \<open>oid\<close> watching \<open>composeEl\<close>.\<close>

definition removalCallback :: "nat \<Rightarrow> nat \<Rightarrow> state \<Rightarrow> state" where
  "removalCallback oid composeEl s =
     (if \<not> contains (document s) composeEl
      then onRemoved (emit [OnRemoved oid] (disconnect oid s))
      else s)"

definition triggerSendAndArchive :: "element \<Rightarrow> nat \<Rightarrow> state \<Rightarrow> state" where
  "triggerSendAndArchive composeEl sendBtn s =
     (let s1 = emit [Query (FindNative (ident composeEl))] s
      in case findNativeSendAndArchiveButton composeEl of
           Some nativeBtn \<Rightarrow> simulateClick (ident nativeBtn) s1
         | None \<Rightarrow> setTimeout (SendClick sendBtn) 0 (watchComposeForRemoval (ident composeEl) s1))"

section \<open>Injector\<close>

definition injectButton :: "element \<Rightarrow> state \<Rightarrow> state" where
  "injectButton composeEl s =
     (if hasAttribute composeEl PROCESSED_ATTR then s
      else
        let s1 = emit [Query (FindSendButton (ident composeEl))] s
        in case findSendButton composeEl of
             None \<Rightarrow> s1
           | Some sendBtn \<Rightarrow>
               let s2 = setAttribute (ident composeEl) PROCESSED_ATTR ''true'' s1;
                   btn = buildButton (nextId s2) sendBtn;
                   s3 = s2\<lparr>nextId := Suc (nextId s2)\<rparr>;
                   s4 = addEventListener (ident composeEl) ''keydown'' True
                          (ChordHandler (ident composeEl) (ident sendBtn)) s3;
                   s5 = addEventListener (ident btn) ''keydown'' False
                          (ButtonKeydown (ident btn)) s4;
                   s6 = addEventListener (ident btn) ''click'' False
                          (ButtonClick (ident composeEl) (ident sendBtn)) s5
               in insertAdjacentAfter (ident sendBtn) btn s6)"

text \<open>
  \<open>tryInjectWithRetry\<close>. The reference \<open>composeEl\<close> is resolved against the document where
  the source asks \<open>document.contains(composeEl)\<close>.
\<close>

definition tryInjectWithRetry :: "nat \<Rightarrow> nat \<Rightarrow> state \<Rightarrow> state" where
  "tryInjectWithRetry composeEl retriesLeft s =
     (case getElement (document s) composeEl of
        None \<Rightarrow> s
      | Some el \<Rightarrow>
          if hasAttribute el PROCESSED_ATTR then s
          else
            let s1 = emit [Query (FindSendButton composeEl)] s
            in (case findSendButton el of
                  Some _ \<Rightarrow> injectButton el s1
                | None \<Rightarrow>
                    if retriesLeft > 0
                    then setTimeout (InjectRetry composeEl (retriesLeft - 1)) 300 s1
                    else s1))"

section \<open>Scanning\<close>

text \<open>
  \<open>scanAll\<close>: the node list of \<open>.dw\<close> elements is taken once; each is then looked at
  as the document stands when its turn comes.
\<close>

definition scanDw :: "state \<Rightarrow> nat \<Rightarrow> state" where
  "scanDw s dw =
     (case getElement (document s) dw of
        None \<Rightarrow> s
      | Some dwEl \<Rightarrow>
          foldl (\<lambda>s' composeEl. tryInjectWithRetry composeEl 6 s') s
                (map ident (findComposeWindows (document s) dwEl)))"

definition scanAll :: "state \<Rightarrow> state" where
  "scanAll s =
     (let s1 = s\<lparr>scanTimer := None\<rparr>;
          dwEls = docQuerySelectorAll (document s1) (hasClass ''dw'')
      in foldl scanDw s1 (map ident dwEls))"

definition scheduleScan :: "nat \<Rightarrow> state \<Rightarrow> state" where
  "scheduleScan delay s =
     (let s1 = (case scanTimer s of Some t \<Rightarrow> clearTimeout t s | None \<Rightarrow> s)
      in (setTimeout ScanAll delay s1)\<lparr>scanTimer := Some (nextTimer s1)\<rparr>)"


section \<open>Events and listeners\<close>

record dom_event =
  evType :: string
  key :: string
  ctrlKey :: bool
  shiftKey :: bool
  altKey :: bool
  metaKey :: bool
  cancelable :: bool
  defaultPrevented :: bool
  immediateStopped :: bool

definition preventDefault :: "dom_event \<Rightarrow> dom_event" where
  "preventDefault e = (if cancelable e then e\<lparr>defaultPrevented := True\<rparr> else e)"

definition stopImmediatePropagation :: "dom_event \<Rightarrow> dom_event" where
  "stopImmediatePropagation e = e\<lparr>immediateStopped := True\<rparr>"

text \<open>The capture-phase keydown listener that \<open>injectButton\<close> puts on the region.\<close>

definition chordHandler ::
  "element \<Rightarrow> nat \<Rightarrow> dom_event \<Rightarrow> state \<Rightarrow> dom_event \<times> state" where
  "chordHandler composeEl sendBtn e s =
     (if key e = ''Enter'' \<and> ctrlKey e \<and> shiftKey e
      then (stopImmediatePropagation (preventDefault e),
            triggerSendAndArchive composeEl sendBtn s)
      else (e, s))"

text \<open>The click listener on the synthetic control.\<close>

definition buttonClickHandler ::
  "element \<Rightarrow> nat \<Rightarrow> dom_event \<Rightarrow> state \<Rightarrow> dom_event \<times> state" where
  "buttonClickHandler composeEl sendBtn e s =
     (stopImmediatePropagation (preventDefault e), triggerSendAndArchive composeEl sendBtn s)"

text \<open>
  Listeners that an event of type \<open>ty\<close> aimed at \<open>target\<close> meets: the capturing ones from
  the root down to the target, then the others from the target up.
\<close>

definition listenersOn :: "state \<Rightarrow> string \<Rightarrow> bool \<Rightarrow> element list \<Rightarrow> handler list" where
  "listenersOn s ty capture path =
     concat (map (\<lambda>el. map (\<lambda>l. snd (snd (snd l)))
                        (filter (\<lambda>l. fst l = ident el \<and> fst (snd l) = ty \<and>
                                      fst (snd (snd l)) = capture)
                                (listeners s)))
                 path)"

definition eventHandlers :: "state \<Rightarrow> string \<Rightarrow> nat \<Rightarrow> handler list" where
  "eventHandlers s ty target =
     (let path = pathTo target (document s)
      in listenersOn s ty True (rev path) @ listenersOn s ty False path)"

fun runHandlers ::
  "(handler \<Rightarrow> dom_event \<Rightarrow> state \<Rightarrow> dom_event \<times> state) \<Rightarrow> handler list \<Rightarrow>
   dom_event \<Rightarrow> state \<Rightarrow> dom_event \<times> state" where
  "runHandlers invoke [] e s = (e, s)"
| "runHandlers invoke (h # hs) e s =
     (if immediateStopped e then (e, s)
      else case invoke h e s of (e', s') \<Rightarrow> runHandlers invoke hs e' s')"

text \<open>
  A handler's captured region reference is read as the region stands in the document
  when the handler runs. User input reaches attached elements only; a handler whose
  region is outside the document is not run by the model.
\<close>

definition invokeClick :: "handler \<Rightarrow> dom_event \<Rightarrow> state \<Rightarrow> dom_event \<times> state" where
  "invokeClick h e s =
     (case h of
        ButtonClick composeEl sendBtn \<Rightarrow>
          (case getElement (document s) composeEl of
             Some el \<Rightarrow> buttonClickHandler el sendBtn e s
           | None \<Rightarrow> (e, s))
      | _ \<Rightarrow> (e, s))"

definition clickEvent :: dom_event where
  "clickEvent =
     \<lparr>evType = ''click'', key = [], ctrlKey = False, shiftKey = False, altKey = False,
      metaKey = False, cancelable = True, defaultPrevented = False,
      immediateStopped = False\<rparr>"

definition dispatchClick :: "nat \<Rightarrow> state \<Rightarrow> dom_event \<times> state" where
  "dispatchClick target s =
     runHandlers invokeClick (eventHandlers s ''click'' target) clickEvent s"

text \<open>
  The keydown listener on the synthetic control; \<open>btn.click()\<close> is a click on the control,
  which runs its click listener.
\<close>

definition buttonKeydownHandler :: "nat \<Rightarrow> dom_event \<Rightarrow> state \<Rightarrow> dom_event \<times> state" where
  "buttonKeydownHandler btn e s =
     (if key e = ''Enter'' \<or> key e = '' ''
      then (preventDefault e, snd (dispatchClick btn (emit [Click btn] s)))
      else (e, s))"

definition invokeKeydown :: "handler \<Rightarrow> dom_event \<Rightarrow> state \<Rightarrow> dom_event \<times> state" where
  "invokeKeydown h e s =
     (case h of
        ChordHandler composeEl sendBtn \<Rightarrow>
          (case getElement (document s) composeEl of
             Some el \<Rightarrow> chordHandler el sendBtn e s
           | None \<Rightarrow> (e, s))
      | ButtonKeydown btn \<Rightarrow> buttonKeydownHandler btn e s
      | _ \<Rightarrow> (e, s))"

definition dispatchKeydown :: "nat \<Rightarrow> dom_event \<Rightarrow> state \<Rightarrow> dom_event \<times> state" where
  "dispatchKeydown target e s =
     runHandlers invokeKeydown (eventHandlers s ''keydown'' target) e s"

section \<open>Mutation watcher\<close>

text \<open>
  An added node as the main observer's callback sees it: an element with its proper
  ancestors (nearest first), or a node that is not an element.
\<close>

datatype node = ElementNode element "element list" | OtherNode

fun nodesNeedScan :: "node list \<Rightarrow> bool" where
  "nodesNeedScan [] = False"
| "nodesNeedScan (OtherNode # ns) = nodesNeedScan ns"
| "nodesNeedScan (ElementNode el ancestors # ns) =
     (if getPopupComposeRoot (el # ancestors) \<noteq> None then True
      else if querySelector el (hasClass ''dw'') \<noteq> None then True
      else nodesNeedScan ns)"

fun mutationsNeedScan :: "node list list \<Rightarrow> bool" where
  "mutationsNeedScan [] = False"
| "mutationsNeedScan (addedNodes # muts) =
     (if nodesNeedScan addedNodes then True else mutationsNeedScan muts)"

definition mainObserverCallback :: "node list list \<Rightarrow> state \<Rightarrow> state" where
  "mainObserverCallback mutations s =
     (if mutationsNeedScan mutations then scheduleScan 300 s else s)"

section \<open>The event loop\<close>

definition runCallback :: "callback \<Rightarrow> state \<Rightarrow> state" where
  "runCallback cb s =
     (case cb of
        ArchiveDefault \<Rightarrow> archiveCurrentConversation 8 s
      | ArchiveRetry n \<Rightarrow> archiveCurrentConversation n s
      | SendClick sendBtn \<Rightarrow> emit [Click sendBtn] s
      | InjectRetry composeEl n \<Rightarrow> tryInjectWithRetry composeEl n s
      | ScanAll \<Rightarrow> scanAll s
      | ToastFade toast \<Rightarrow> toastFade toast s
      | ToastRemove toast \<Rightarrow> toastRemove toast s
      | StartObserver \<Rightarrow> observe 0 MainObserver s
      | InitialScan \<Rightarrow> scheduleScan 0 s)"

definition maxIdent :: "element \<Rightarrow> nat" where
  "maxIdent doc = fold max (map ident (subtree doc)) 0"

text \<open>
  What can happen between two runs of the script's code: the page changes the document
  (\<open>Host\<close>), a timer or an idle callback comes due, an observer is notified, the user
  presses a key or clicks. Each runs to completion before the next. Identities of nodes
  the script creates later are kept apart from those the page brings in.
\<close>

datatype event =
    Host element
  | Fire nat
  | Idle nat
  | Notify nat "node list list"
  | KeyDown nat dom_event
  | MouseClick nat

definition step :: "state \<Rightarrow> event \<Rightarrow> state" where
  "step s ev =
     (case ev of
        Host doc \<Rightarrow> s\<lparr>document := doc, nextId := max (nextId s) (Suc (maxIdent doc))\<rparr>
      | Fire t \<Rightarrow>
          (case find (\<lambda>e. fst e = t) (timers s) of
             None \<Rightarrow> s
           | Some e \<Rightarrow>
               runCallback (snd (snd e)) (s\<lparr>timers := filter (\<lambda>e. fst e \<noteq> t) (timers s)\<rparr>))
      | Idle t \<Rightarrow>
          (case find (\<lambda>e. fst e = t) (idleCallbacks s) of
             None \<Rightarrow> s
           | Some e \<Rightarrow>
               runCallback (snd (snd e))
                 (s\<lparr>idleCallbacks := filter (\<lambda>e. fst e \<noteq> t) (idleCallbacks s)\<rparr>))
      | Notify oid mutations \<Rightarrow>
          (case map_of (observers s) oid of
             None \<Rightarrow> s
           | Some MainObserver \<Rightarrow> mainObserverCallback mutations s
           | Some (RemovalObserver composeEl) \<Rightarrow> removalCallback oid composeEl s)
      | KeyDown target e \<Rightarrow> snd (dispatchKeydown target e s)
      | MouseClick target \<Rightarrow> snd (dispatchClick target s))"

definition run :: "state \<Rightarrow> event list \<Rightarrow> state" where
  "run s evs = foldl step s evs"

text \<open>The state once the script's top level has run on a page \<open>doc\<close>.\<close>

definition init :: "bool \<Rightarrow> element \<Rightarrow> state" where
  "init idle doc =
     runWhenIdle InitialScan 6000
       (runWhenIdle StartObserver 6000
          \<lparr>document = doc, nextId = Suc (maxIdent doc), timers = [], nextTimer = 1,
           idleSupported = idle, idleCallbacks = [], nextIdle = 1, scanTimer = None,
           observers = [], nextObserver = 1, listeners = [], trace = []\<rparr>)"

section \<open>Example pages\<close>

text \<open>A popup area \<open>.dw\<close> holding one compose window \<open>.nH\<close> with Gmail's Send button.\<close>

definition exSend :: element where
  "exSend = Element 3 ''div''
     [(''class'', ''T-I J-J5-Ji aoO v7''), (''data-tooltip'', ''Send (Ctrl-Enter)'')]
     ''Send'' []"

definition exRegion :: element where
  "exRegion = Element 2 ''div'' [(''class'', ''nH'')] [] [exSend]"

definition exDw :: element where
  "exDw = Element 1 ''div'' [(''class'', ''dw'')] [] [exRegion]"

definition exDoc :: element where
  "exDoc = Element 0 ''body'' [] [] [exDw]"

definition exState :: state where
  "exState =
     \<lparr>document = exDoc, nextId = 4, timers = [], nextTimer = 1, idleSupported = True,
      idleCallbacks = [], nextIdle = 1, scanTimer = None, observers = [],
      nextObserver = 1, listeners = [], trace = []\<rparr>"

text \<open>The same compose window when the page also offers its own combined control.\<close>

definition exNative :: element where
  "exNative = Element 5 ''div''
     [(''class'', ''T-I J-J5-Ji''), (''data-tooltip'', ''Send and archive'')] [] []"

definition exNativeRegion :: element where
  "exNativeRegion = Element 2 ''div'' [(''class'', ''nH'')] [] [exSend, exNative]"

text \<open>Key presses: Ctrl+Shift+Enter, Ctrl+Enter, and Ctrl+Shift+Alt+Enter.\<close>

definition exChord :: dom_event where
  "exChord =
     \<lparr>evType = ''keydown'', key = ''Enter'', ctrlKey = True, shiftKey = True,
      altKey = False, metaKey = False, cancelable = True, defaultPrevented = False,
      immediateStopped = False\<rparr>"

definition exCtrlEnter :: dom_event where
  "exCtrlEnter = exChord\<lparr>shiftKey := False\<rparr>"

definition exChordAlt :: dom_event where
  "exChordAlt = exChord\<lparr>altKey := True\<rparr>"

text \<open>A control that carries the Send marker class and tooltip, and a combined label.\<close>

definition exMixed :: element where
  "exMixed = Element 3 ''div''
     [(''class'', ''aoO''), (''data-tooltip'', ''Send''), (''aria-label'', ''Send & Archive'')]
     [] []"

definition exMixedRegion :: element where
  "exMixedRegion = Element 2 ''div'' [(''class'', ''nH'')] [] [exMixed]"

text \<open>A compose window whose only candidate is a combined control.\<close>

definition exCombined :: element where
  "exCombined = Element 5 ''div''
     [(''class'', ''T-I aoO''), (''data-tooltip'', ''Send & Archive'')] [] []"

definition exCombinedRegion :: element where
  "exCombinedRegion = Element 2 ''div'' [(''class'', ''nH'')] [] [exCombined]"

text \<open>The example page when the initial scan has been scheduled and not yet run.\<close>

definition exScheduled :: state where
  "exScheduled =
     exState\<lparr>timers := [(1, 0, ScanAll)], nextTimer := 2, scanTimer := Some 1,
              observers := [(0, MainObserver)]\<rparr>"

text \<open>A removal watcher on the example compose window, and the page once Gmail has
  closed that window.\<close>

definition exWatching :: state where
  "exWatching = exState\<lparr>observers := [(1, RemovalObserver 2)], nextObserver := 2\<rparr>"

definition exGone :: state where
  "exGone = exWatching\<lparr>document := Element 0 ''body'' [] [] []\<rparr>"


text \<open>A page that shows the Archive button of the conversation toolbar.\<close>

definition exArchivable :: state where
  "exArchivable =
     exState\<lparr>document := Element 0 ''body'' [] []
        [Element 9 ''div'' [(''role'', ''button''), (''data-tooltip'', ''Archive'')] [] []]\<rparr>"


text \<open>The example compose window before Gmail has rendered its Send button.\<close>

definition exBare :: state where
  "exBare =
     exState\<lparr>document := Element 0 ''body'' [] []
        [Element 1 ''div'' [(''class'', ''dw'')] []
           [Element 2 ''div'' [(''class'', ''nH'')] [] []]]\<rparr>"

text \<open>
  The example page once the script's control (identity 4) stands beside the Send button
  and Gmail has rendered the compose window anew, the processed marker gone from it.
\<close>

definition exMarkerDropped :: element where
  "exMarkerDropped = Element 0 ''body'' [] []
     [Element 1 ''div'' [(''class'', ''dw'')] []
        [Element 2 ''div'' [(''class'', ''nH'')] [] [exSend, buildButton 4 exSend]]]"

text \<open>
  A popup area that holds, beside the compose window, an element of the Send marker
  class that lies in no \<open>.nH\<close> wrapper.
\<close>

definition exStray :: element where
  "exStray = Element 4 ''div'' [(''class'', ''T-I aoO'')] [] []"

definition exNestedDoc :: element where
  "exNestedDoc =
     Element 0 ''body'' [] [] [Element 1 ''div'' [(''class'', ''dw'')] [] [exRegion, exStray]]"

section \<open>Auxiliary notions for the properties\<close>

text \<open>What the selectors and finders can see of one element: identity, tag, attributes.\<close>

definition shallow :: "element \<Rightarrow> nat \<times> string \<times> (string \<times> string) list" where
  "shallow e = (ident e, tagName e, attrs e)"

text \<open>
  The send-control finder as the specification words it: one list of candidates, the
  marker-class matches with their tooltip before the accessible-label matches with
  their label; a candidate qualifies when it is not the synthetic control and its
  lowercased text equals \<open>send\<close>, or starts with \<open>send\<close> and a space but not with
  \<open>send &\<close>; the first qualifying candidate is returned, or none.
\<close>

definition specSendCandidates :: "element \<Rightarrow> (element \<times> string) list" where
  "specSendCandidates region =
     map (\<lambda>el. (el, getAttributeOr el ''data-tooltip''))
         (querySelectorAll region (hasClass ''aoO''))
     @ map (\<lambda>el. (el, getAttributeOr el ''aria-label''))
           (querySelectorAll region ariaSendSelector)"

definition specQualifies :: "element \<times> string \<Rightarrow> bool" where
  "specQualifies c =
     (\<not> hasAttribute (fst c) BTN_ATTR \<and>
      (toLowerCase (snd c) = ''send'' \<or>
       (startsWith (toLowerCase (snd c)) ''send '' \<and>
        \<not> startsWith (toLowerCase (snd c)) ''send &'')))"

definition specFindSendControl :: "element \<Rightarrow> element option" where
  "specFindSendControl region =
     map_option fst (find specQualifies (specSendCandidates region))"

definition notOurs :: "element \<Rightarrow> bool" where
  "notOurs el = (\<not> hasAttribute el BTN_ATTR)"

text \<open>
  The test each finder loop applies to one element of the region, selector included:
  the first and the second loop of \<open>findSendButton\<close>, and the loop of
  \<open>findNativeSendAndArchiveButton\<close>.
\<close>

definition sendByClass :: "element \<Rightarrow> bool" where
  "sendByClass el = (hasClass ''aoO'' el \<and> \<not> hasAttribute el BTN_ATTR \<and>
                     acceptsSend (toLowerCase (getAttributeOr el ''data-tooltip'')))"

definition sendByLabel :: "element \<Rightarrow> bool" where
  "sendByLabel el = (ariaSendSelector el \<and> \<not> hasAttribute el BTN_ATTR \<and>
                     acceptsSend (toLowerCase (getAttributeOr el ''aria-label'')))"

definition nativeHost :: "element \<Rightarrow> bool" where
  "nativeHost el = (nativeSelector el \<and> \<not> hasAttribute el BTN_ATTR)"

text \<open>
  Identities are handed out from \<open>nextId\<close>: every element of the document has an
  identity below it, so the element the script creates next is new to the page.
\<close>

definition idsFresh :: "state \<Rightarrow> bool" where
  "idsFresh s = (\<forall>e \<in> set (subtree (document s)). ident e < nextId s)"

text \<open>
  The regions the script has marked as processed, in the order of marking, and the
  synthetic controls it has created with the region each one serves (read from the
  registration of the control's click listener, which captures the region).
\<close>

fun markedIds :: "effect list \<Rightarrow> nat list" where
  "markedIds [] = []"
| "markedIds (SetAttribute r n v # es) =
     (if n = PROCESSED_ATTR then r # markedIds es else markedIds es)"
| "markedIds (_ # es) = markedIds es"

fun injections :: "effect list \<Rightarrow> (nat \<times> nat) list" where
  "injections [] = []"
| "injections (AddEventListener b ty cap (ButtonClick r sb) # es) = (r, b) # injections es"
| "injections (_ # es) = injections es"

definition controlsFor :: "nat \<Rightarrow> effect list \<Rightarrow> nat list" where
  "controlsFor r es = map snd (filter (\<lambda>p. fst p = r) (injections es))"

text \<open>The synthetic controls that a document holds.\<close>

definition syntheticControls :: "element \<Rightarrow> element list" where
  "syntheticControls doc = docQuerySelectorAll doc (\<lambda>e. hasAttribute e BTN_ATTR)"

text \<open>
  The page leaves the processed marker alone: whenever the page changes, every element
  of the new document that the script has marked before still bears the marker.
\<close>

definition markedOk :: "nat list \<Rightarrow> element \<Rightarrow> bool" where
  "markedOk marked e = (ident e \<in> set marked \<longrightarrow> hasAttribute e PROCESSED_ATTR)"

definition hostKeeps :: "state \<Rightarrow> event \<Rightarrow> bool" where
  "hostKeeps s ev =
     (case ev of
        Host doc \<Rightarrow> list_all (markedOk (markedIds (trace s))) (subtree doc)
      | _ \<Rightarrow> True)"

fun keepsMarkers :: "state \<Rightarrow> event list \<Rightarrow> bool" where
  "keepsMarkers s [] = True"
| "keepsMarkers s (ev # evs) = (hostKeeps s ev \<and> keepsMarkers (step s ev) evs)"

text \<open>
  The invariant behind it: marked identities are old, the marked elements of the document
  bear the marker, no region is marked twice, and the controls created correspond one to
  one to the markings.
\<close>

definition markInv :: "state \<Rightarrow> bool" where
  "markInv s =
     (idsFresh s \<and>
      (\<forall>r \<in> set (markedIds (trace s)). r < nextId s) \<and>
      list_all (markedOk (markedIds (trace s))) (subtree (document s)) \<and>
      distinct (markedIds (trace s)) \<and>
      map fst (injections (trace s)) = markedIds (trace s))"

definition markView :: "state \<Rightarrow> nat list \<times> (nat \<times> nat) list" where
  "markView s = (markedIds (trace s), injections (trace s))"

text \<open>
  The pending scans, and the invariant of the scan timer: timer handles are distinct and
  below \<open>nextTimer\<close>, no idle callback is \<open>scanAll\<close> itself, every pending scan timer
  is the one \<open>scanTimer\<close> holds, and \<open>scanTimer\<close> holds a pending scan timer or null.
\<close>

definition pendingScans :: "state \<Rightarrow> (nat \<times> nat \<times> callback) list" where
  "pendingScans s = filter (\<lambda>e. snd (snd e) = ScanAll) (timers s)"

definition timersOk :: "state \<Rightarrow> bool" where
  "timersOk s = (distinct (map fst (timers s)) \<and> (\<forall>e \<in> set (timers s). fst e < nextTimer s))"

definition scanInv :: "state \<Rightarrow> bool" where
  "scanInv s =
     (timersOk s \<and>
      (\<forall>e \<in> set (idleCallbacks s). snd (snd e) \<noteq> ScanAll) \<and>
      (\<forall>e \<in> set (timers s). snd (snd e) = ScanAll \<longrightarrow> scanTimer s = Some (fst e)) \<and>
      (case scanTimer s of None \<Rightarrow> True
       | Some t \<Rightarrow> t \<in> set (map fst (filter (\<lambda>e. snd (snd e) = ScanAll) (timers s)))))"


text \<open>
  The watchers whose callback has been called, in order, and the invariant of the
  observers: handles are distinct, positive for removal watchers and below
  \<open>nextObserver\<close>; no watcher's callback has been called twice, and none of a watcher
  that is still connected.
\<close>

fun removedIds :: "effect list \<Rightarrow> nat list" where
  "removedIds [] = []"
| "removedIds (OnRemoved oid # es) = oid # removedIds es"
| "removedIds (_ # es) = removedIds es"

definition obsInv :: "state \<Rightarrow> bool" where
  "obsInv s =
     (distinct (map fst (observers s)) \<and> 0 < nextObserver s \<and>
      (\<forall>e \<in> set (observers s). fst e < nextObserver s) \<and>
      (\<forall>e \<in> set (observers s). snd e \<noteq> MainObserver \<longrightarrow> 0 < fst e) \<and>
      distinct (removedIds (trace s)) \<and>
      (\<forall>oid \<in> set (removedIds (trace s)).
          0 < oid \<and> oid < nextObserver s \<and> oid \<notin> set (map fst (observers s))))"

definition obsView :: "state \<Rightarrow> (nat \<times> observer) list \<times> nat \<times> nat list" where
  "obsView s = (observers s, nextObserver s, removedIds (trace s))"


text \<open>
  What an archive sequence leaves in the trace, with timer handles left out: a lookup
  of the archive control, a retry timer (its argument and delay), an event dispatched on
  an element, the notification, and the grace timer of the removal callback. The three
  phases of a sequence started from \<open>s0\<close> are stated on these.
\<close>

datatype archive_event =
    Lookup
  | Retry nat nat
  | Activate nat string
  | Toast string
  | Grace nat

definition archiveEvent :: "effect \<Rightarrow> archive_event option" where
  "archiveEvent e =
     (case e of
        Query q \<Rightarrow> (case q of FindArchive \<Rightarrow> Some Lookup | _ \<Rightarrow> None)
      | DispatchEvent el ty \<Rightarrow> Some (Activate el ty)
      | ShowToast m \<Rightarrow> Some (Toast m)
      | SetTimeout t cb d \<Rightarrow>
          (case cb of
             ArchiveRetry n \<Rightarrow> Some (Retry n d)
           | ArchiveDefault \<Rightarrow> Some (Grace d)
           | _ \<Rightarrow> None)
      | _ \<Rightarrow> None)"

definition archiveEvents :: "effect list \<Rightarrow> archive_event list" where
  "archiveEvents es =
     concat (map (\<lambda>e. case archiveEvent e of None \<Rightarrow> [] | Some a \<Rightarrow> [a]) es)"

definition isArchiveCb :: "callback \<Rightarrow> bool" where
  "isArchiveCb cb = (case cb of ArchiveDefault \<Rightarrow> True | ArchiveRetry n \<Rightarrow> True | _ \<Rightarrow> False)"

definition archiveTimers :: "state \<Rightarrow> (nat \<times> nat \<times> callback) list" where
  "archiveTimers s = filter (\<lambda>e. isArchiveCb (snd (snd e))) (timers s)"

definition archiveIdle :: "state \<Rightarrow> (nat \<times> nat \<times> callback) list" where
  "archiveIdle s = filter (\<lambda>e. isArchiveCb (snd (snd e))) (idleCallbacks s)"

definition failedAttempts :: "nat \<Rightarrow> archive_event list" where
  "failedAttempts k = concat (map (\<lambda>i. [Lookup, Retry (7 - i) 300]) [0..<k])"

definition archivePending :: "nat \<Rightarrow> state \<Rightarrow> state \<Rightarrow> bool" where
  "archivePending k s0 s =
     (1 \<le> k \<and> k \<le> 8 \<and>
      archiveEvents (trace s) = archiveEvents (trace s0) @ failedAttempts k \<and>
      map snd (archiveTimers s) = [(300, ArchiveRetry (8 - k))])"

definition archiveSucceeded :: "nat \<Rightarrow> nat \<Rightarrow> state \<Rightarrow> state \<Rightarrow> bool" where
  "archiveSucceeded k b s0 s =
     (k \<le> 8 \<and>
      archiveEvents (trace s) = archiveEvents (trace s0) @ failedAttempts k @
        [Lookup, Activate b ''mousedown'', Activate b ''mouseup'', Activate b ''click''] \<and>
      archiveTimers s = [])"

definition archiveFailed :: "state \<Rightarrow> state \<Rightarrow> bool" where
  "archiveFailed s0 s =
     (archiveEvents (trace s) = archiveEvents (trace s0) @ failedAttempts 8 @
        [Lookup, Toast failureMessage] \<and>
      archiveTimers s = [])"

definition archivePhase :: "state \<Rightarrow> state \<Rightarrow> bool" where
  "archivePhase s0 s =
     ((\<exists>k. archivePending k s0 s) \<or> (\<exists>k b. archiveSucceeded k b s0 s) \<or> archiveFailed s0 s)"

definition isEnv :: "event \<Rightarrow> bool" where
  "isEnv ev = (case ev of Host d \<Rightarrow> True | Fire t \<Rightarrow> True | Idle t \<Rightarrow> True | _ \<Rightarrow> False)"

definition archView ::
  "state \<Rightarrow> (nat \<times> nat \<times> callback) list \<times> (nat \<times> nat \<times> callback) list \<times> archive_event list" where
  "archView s = (archiveTimers s, archiveIdle s, archiveEvents (trace s))"


definition archInv :: "state \<Rightarrow> state \<Rightarrow> bool" where
  "archInv s0 s = (scanInv s \<and> archiveIdle s = [] \<and> archivePhase s0 s)"


text \<open>
  What an injection retry chain for the region \<open>r\<close> leaves in the trace: a lookup of
  the region's Send button, a retry timer (remaining count and delay), the processed
  marker written on the region. A scan source is a pending \<open>scanAll\<close> or initial-scan
  callback, which would start further chains.
\<close>

datatype inject_event =
    SendLookup
  | RetryInject nat nat
  | Marked

definition injectEvent :: "nat \<Rightarrow> effect \<Rightarrow> inject_event option" where
  "injectEvent r e =
     (case e of
        Query q \<Rightarrow>
          (case q of FindSendButton r' \<Rightarrow> if r' = r then Some SendLookup else None
                   | _ \<Rightarrow> None)
      | SetTimeout t cb d \<Rightarrow>
          (case cb of InjectRetry r' n \<Rightarrow> if r' = r then Some (RetryInject n d) else None
                    | _ \<Rightarrow> None)
      | SetAttribute r' name v \<Rightarrow>
          if r' = r \<and> name = PROCESSED_ATTR then Some Marked else None
      | _ \<Rightarrow> None)"

definition injectEvents :: "nat \<Rightarrow> effect list \<Rightarrow> inject_event list" where
  "injectEvents r es =
     concat (map (\<lambda>e. case injectEvent r e of None \<Rightarrow> [] | Some a \<Rightarrow> [a]) es)"

definition isInjectCb :: "nat \<Rightarrow> callback \<Rightarrow> bool" where
  "isInjectCb r cb = (case cb of InjectRetry r' n \<Rightarrow> r' = r | _ \<Rightarrow> False)"

definition isScanSource :: "callback \<Rightarrow> bool" where
  "isScanSource cb = (case cb of ScanAll \<Rightarrow> True | InitialScan \<Rightarrow> True | _ \<Rightarrow> False)"

definition injectTimers :: "nat \<Rightarrow> state \<Rightarrow> (nat \<times> nat \<times> callback) list" where
  "injectTimers r s = filter (\<lambda>e. isInjectCb r (snd (snd e))) (timers s)"

definition scanSources :: "nat \<Rightarrow> state \<Rightarrow> (nat \<times> nat \<times> callback) list" where
  "scanSources r s =
     filter (\<lambda>e. isScanSource (snd (snd e))) (timers s)
     @ filter (\<lambda>e. isScanSource (snd (snd e)) \<or> isInjectCb r (snd (snd e))) (idleCallbacks s)"

definition failedLookups :: "nat \<Rightarrow> inject_event list" where
  "failedLookups k = concat (map (\<lambda>i. [SendLookup, RetryInject (5 - i) 300]) [0..<k])"

definition injectPending :: "nat \<Rightarrow> nat \<Rightarrow> state \<Rightarrow> state \<Rightarrow> bool" where
  "injectPending k r s0 s =
     (1 \<le> k \<and> k \<le> 6 \<and>
      injectEvents r (trace s) = injectEvents r (trace s0) @ failedLookups k \<and>
      map snd (injectTimers r s) = [(300, InjectRetry r (6 - k))])"

definition injectInjected :: "nat \<Rightarrow> nat \<Rightarrow> state \<Rightarrow> state \<Rightarrow> bool" where
  "injectInjected k r s0 s =
     (k \<le> 6 \<and>
      injectEvents r (trace s) =
        injectEvents r (trace s0) @ failedLookups k @ [SendLookup, SendLookup, Marked] \<and>
      injectTimers r s = [])"

definition injectStopped :: "nat \<Rightarrow> nat \<Rightarrow> state \<Rightarrow> state \<Rightarrow> bool" where
  "injectStopped k r s0 s =
     (k \<le> 6 \<and>
      injectEvents r (trace s) = injectEvents r (trace s0) @ failedLookups k \<and>
      injectTimers r s = [])"

definition injectGaveUp :: "nat \<Rightarrow> state \<Rightarrow> state \<Rightarrow> bool" where
  "injectGaveUp r s0 s =
     (injectEvents r (trace s) = injectEvents r (trace s0) @ failedLookups 6 @ [SendLookup] \<and>
      injectTimers r s = [])"

definition injectPhase :: "nat \<Rightarrow> state \<Rightarrow> state \<Rightarrow> bool" where
  "injectPhase r s0 s =
     ((\<exists>k. injectPending k r s0 s) \<or> (\<exists>k. injectInjected k r s0 s)
      \<or> (\<exists>k. injectStopped k r s0 s) \<or> injectGaveUp r s0 s)"

definition injView ::
  "nat \<Rightarrow> state \<Rightarrow>
   (nat \<times> nat \<times> callback) list \<times> (nat \<times> nat \<times> callback) list \<times> inject_event list" where
  "injView r s = (injectTimers r s, scanSources r s, injectEvents r (trace s))"

definition injInv :: "nat \<Rightarrow> state \<Rightarrow> state \<Rightarrow> bool" where
  "injInv r s0 s = (scanInv s \<and> scanSources r s = [] \<and> injectPhase r s0 s)"


definition isRetryEvent :: "inject_event \<Rightarrow> bool" where
  "isRetryEvent a = (case a of RetryInject n d \<Rightarrow> True | _ \<Rightarrow> False)"


section \<open>Properties\<close>

subsection \<open>What one call of each sequencer function does\<close>

lemma simulateClick_trace:
  "simulateClick el s =
     s\<lparr>trace := trace s @ [DispatchEvent el ''mousedown'', DispatchEvent el ''mouseup'',
                             DispatchEvent el ''click'']\<rparr>"
  by (simp add: simulateClick_def emit_def)

lemma trigger_native:
  assumes "findNativeSendAndArchiveButton composeEl = Some nativeBtn"
  shows "triggerSendAndArchive composeEl sendBtn s =
     s\<lparr>trace := trace s @
        [Query (FindNative (ident composeEl)),
         DispatchEvent (ident nativeBtn) ''mousedown'',
         DispatchEvent (ident nativeBtn) ''mouseup'',
         DispatchEvent (ident nativeBtn) ''click'']\<rparr>"
  using assms by (simp add: triggerSendAndArchive_def simulateClick_trace emit_def)

lemma trigger_fallback:
  assumes "findNativeSendAndArchiveButton composeEl = None"
  shows "triggerSendAndArchive composeEl sendBtn s =
     s\<lparr>observers :=
         AList.update (nextObserver s) (RemovalObserver (ident composeEl)) (observers s),
       nextObserver := Suc (nextObserver s),
       timers := timers s @ [(nextTimer s, 0, SendClick sendBtn)],
       nextTimer := Suc (nextTimer s),
       trace := trace s @
        [Query (FindNative (ident composeEl)),
         Observe (nextObserver s) (RemovalObserver (ident composeEl)),
         SetTimeout (nextTimer s) (SendClick sendBtn) 0]\<rparr>"
  using assms
  by (simp add: triggerSendAndArchive_def watchComposeForRemoval_def observe_def
      setTimeout_def emit_def)

lemma archive_found:
  assumes "archiveBtn (document s) = Some b"
  shows "archiveCurrentConversation n s =
     s\<lparr>trace := trace s @
        [Query FindArchive,
         DispatchEvent (ident b) ''mousedown'',
         DispatchEvent (ident b) ''mouseup'',
         DispatchEvent (ident b) ''click'']\<rparr>"
  using assms by (simp add: archiveCurrentConversation_def simulateClick_trace emit_def)

subsection \<open>Writes to the tree\<close>

lemma subtree_Element:
  "subtree (Element i t a x cs) = Element i t a x cs # concat (map subtree cs)"
  by (simp add: subtree_def [abs_def])

lemma descendants_children: "descendants e = concat (map subtree (children e))"
  by (cases e) (simp add: subtree_def [abs_def])

lemma ident_setAttributeIn [simp]: "ident (setAttributeIn r n v e) = ident e"
  by (cases e) simp

lemma tagName_setAttributeIn [simp]: "tagName (setAttributeIn r n v e) = tagName e"
  by (cases e) simp

lemma attrs_setAttributeIn:
  "attrs (setAttributeIn r n v e) = (if ident e = r then AList.update n v (attrs e) else attrs e)"
  by (cases e) simp

lemma subtree_setAttributeIn:
  "subtree (setAttributeIn r n v e) = map (setAttributeIn r n v) (subtree e)"
proof (induction e)
  case (Element i t a x cs)
  have "concat (map subtree (map (setAttributeIn r n v) cs))
        = map (setAttributeIn r n v) (concat (map subtree cs))"
    using Element by (induction cs) auto
  then show ?case by (simp add: subtree_Element)
qed

lemma find_map_ident:
  assumes "\<And>e. ident (f e) = ident e"
  shows "find (\<lambda>e. ident e = i) (map f xs) = map_option f (find (\<lambda>e. ident e = i) xs)"
  using assms by (induction xs) auto

lemma getElement_setAttributeIn:
  "getElement (setAttributeIn r n v doc) i = map_option (setAttributeIn r n v) (getElement doc i)"
  by (simp add: getElement_def subtree_setAttributeIn find_map_ident)

lemma hasAttribute_update:
  "hasAttribute (setAttributeIn r n v e) m = (hasAttribute e m \<or> (ident e = r \<and> m = n))"
  by (auto simp: hasAttribute_def getAttribute_def attrs_setAttributeIn update_conv')

lemma ident_insertAfter [simp]: "ident (insertAfter r n e) = ident e"
  by (cases e) simp
lemma tagName_insertAfter [simp]: "tagName (insertAfter r n e) = tagName e"
  by (cases e) simp
lemma attrs_insertAfter [simp]: "attrs (insertAfter r n e) = attrs e"
  by (cases e) simp
lemma shallow_insertAfter [simp]: "shallow (insertAfter r n e) = shallow e"
  by (simp add: shallow_def)

lemma insertAfter_filter:
  assumes new: "filter Q (map shallow (subtree new)) = []"
  shows "filter Q (map shallow (subtree (insertAfter r new e))) = filter Q (map shallow (subtree e))"
    and "filter Q (map shallow (concat (map subtree (insertAfterList r new cs))))
         = filter Q (map shallow (concat (map subtree cs)))"
  using new
proof (induction r new e and r new cs rule: insertAfter_insertAfterList.induct)
  case (1 ref new i t a x cs)
  then show ?case by (simp add: subtree_Element shallow_def)
next
  case (2 ref new)
  then show ?case by simp
next
  case (3 ref new c cs)
  then show ?case by simp
qed

subsection \<open>The finders as searches\<close>

lemma scanByClass_find:
  "scanByClass els =
     find (\<lambda>el. \<not> hasAttribute el BTN_ATTR \<and> acceptsSend (toLowerCase (getAttributeOr el ''data-tooltip''))) els"
  by (induction els) auto

lemma scanByAriaLabel_find:
  "scanByAriaLabel els =
     find (\<lambda>el. \<not> hasAttribute el BTN_ATTR \<and> acceptsSend (toLowerCase (getAttributeOr el ''aria-label''))) els"
  by (induction els) auto

lemma firstNotOurs_find:
  "firstNotOurs els = find (\<lambda>el. \<not> hasAttribute el BTN_ATTR) els"
  by (induction els) auto

lemma find_append_case:
  "find P (xs @ ys) = (case find P xs of Some x \<Rightarrow> Some x | None \<Rightarrow> find P ys)"
  by (induction xs) auto

lemma find_map_pair:
  "map_option fst (find P (map (\<lambda>el. (el, f el)) xs)) = find (\<lambda>el. P (el, f el)) xs"
  by (induction xs) auto

lemma find_append_fst:
  "map_option fst (find P (xs @ ys)) =
     (case map_option fst (find P xs) of Some x \<Rightarrow> Some x | None \<Rightarrow> map_option fst (find P ys))"
  by (induction xs) auto

lemma spec_class_part:
  "map_option fst (find specQualifies (map (\<lambda>el. (el, getAttributeOr el ''data-tooltip'')) xs))
     = scanByClass xs"
  by (induction xs) (auto simp: specQualifies_def acceptsSend_def)

lemma spec_label_part:
  "map_option fst (find specQualifies (map (\<lambda>el. (el, getAttributeOr el ''aria-label'')) xs))
     = scanByAriaLabel xs"
  by (induction xs) (auto simp: specQualifies_def acceptsSend_def)

lemma findSendButton_spec: "findSendButton region = specFindSendControl region"
  unfolding findSendButton_def specFindSendControl_def specSendCandidates_def
  by (simp only: find_append_fst spec_class_part spec_label_part)

lemma find_SomeD: "find P xs = Some x \<Longrightarrow> P x \<and> x \<in> set xs"
  by (induction xs) (auto split: if_splits)

lemma acceptsSend_not_amp: "acceptsSend t \<Longrightarrow> \<not> startsWith t ''send &''"
  by (auto simp: acceptsSend_def)

lemma findSendButton_SomeD:
  assumes "findSendButton region = Some el"
  shows "\<not> hasAttribute el BTN_ATTR \<and> el \<in> set (descendants region) \<and>
         ((hasClass ''aoO'' el \<and> acceptsSend (toLowerCase (getAttributeOr el ''data-tooltip'')))
          \<or> (ariaSendSelector el \<and> acceptsSend (toLowerCase (getAttributeOr el ''aria-label''))))"
  using assms
  by (auto simp: findSendButton_def scanByClass_find scanByAriaLabel_find querySelectorAll_def
      split: option.splits dest!: find_SomeD)

lemma tokens_aoO: "''aoO'' \<in> set (tokens cur (xs @ '' aoO sab-btn''))"
  by (induction xs arbitrary: cur) (auto simp: isSpace_def)

lemma buildButton_marks:
  "hasClass ''aoO'' (buildButton fresh sendBtn) \<and> hasAttribute (buildButton fresh sendBtn) BTN_ATTR"
  by (simp add: hasClass_def classList_def className_def getAttributeOr_def getAttribute_def
      buildButton_def hasAttribute_def BTN_ATTR_def tokens_aoO)

lemma scanByClass_filter:
  "scanByClass els = scanByClass (filter notOurs els)"
  by (induction els) (auto simp: notOurs_def)

lemma scanByAriaLabel_filter:
  "scanByAriaLabel els = scanByAriaLabel (filter notOurs els)"
  by (induction els) (auto simp: notOurs_def)

lemma firstNotOurs_filter:
  "firstNotOurs els = firstNotOurs (filter notOurs els)"
  by (induction els) (auto simp: notOurs_def)

lemma collectRoots_filter:
  "collectRoots doc dw els seen res = collectRoots doc dw (filter notOurs els) seen res"
  by (induction doc dw els seen res rule: collectRoots.induct) (auto simp: Let_def notOurs_def)

subsection \<open>What one call of the injector does\<close>

lemma injectButton_marked:
  "hasAttribute composeEl PROCESSED_ATTR \<Longrightarrow> injectButton composeEl s = s"
  by (simp add: injectButton_def)

lemma injectButton_inject:
  assumes "\<not> hasAttribute composeEl PROCESSED_ATTR" and "findSendButton composeEl = Some sendBtn"
  shows "injectButton composeEl s =
     s\<lparr>document := insertAfter (ident sendBtn) (buildButton (nextId s) sendBtn)
                     (setAttributeIn (ident composeEl) PROCESSED_ATTR ''true'' (document s)),
       nextId := Suc (nextId s),
       listeners := listeners s @
         [(ident composeEl, ''keydown'', True, ChordHandler (ident composeEl) (ident sendBtn)),
          (nextId s, ''keydown'', False, ButtonKeydown (nextId s)),
          (nextId s, ''click'', False, ButtonClick (ident composeEl) (ident sendBtn))],
       trace := trace s @
         [Query (FindSendButton (ident composeEl)),
          SetAttribute (ident composeEl) PROCESSED_ATTR ''true'',
          AddEventListener (ident composeEl) ''keydown'' True
            (ChordHandler (ident composeEl) (ident sendBtn)),
          AddEventListener (nextId s) ''keydown'' False (ButtonKeydown (nextId s)),
          AddEventListener (nextId s) ''click'' False
            (ButtonClick (ident composeEl) (ident sendBtn)),
          InsertAfter (ident sendBtn) (nextId s)]\<rparr>"
  using assms
  by (simp add: injectButton_def Let_def setAttribute_def addEventListener_def
      insertAdjacentAfter_def emit_def buildButton_def)

lemma find_shallow:
  "map_option shallow (find (\<lambda>e. ident e = i) xs) =
     (case filter (\<lambda>p. fst p = i) (map shallow xs) of [] \<Rightarrow> None | p # _ \<Rightarrow> Some p)"
  by (induction xs) (auto simp: shallow_def)

lemma getElement_insertAfter:
  assumes "\<forall>e \<in> set (subtree new). ident e \<noteq> i"
  shows "map_option shallow (getElement (insertAfter r new doc) i)
         = map_option shallow (getElement doc i)"
proof -
  have "filter (\<lambda>p. fst p = i) (map shallow (subtree new)) = []"
    using assms by (auto simp: filter_empty_conv shallow_def)
  from insertAfter_filter(1) [OF this]
  show ?thesis by (simp add: getElement_def find_shallow)
qed

lemma subtree_buildButton: "subtree (buildButton f sb) = [buildButton f sb]"
  by (simp add: buildButton_def subtree_def)

lemma ident_buildButton: "ident (buildButton f sb) = f"
  by (simp add: buildButton_def)

lemma hasAttribute_shallow:
  "shallow a = shallow b \<Longrightarrow> hasAttribute a n = hasAttribute b n"
  by (simp add: shallow_def hasAttribute_def getAttribute_def)

lemma injectButton_marks_region:
  assumes res: "getElement (document s) (ident composeEl) = Some composeEl"
    and fresh: "ident composeEl < nextId s"
    and unm: "\<not> hasAttribute composeEl PROCESSED_ATTR"
    and send: "findSendButton composeEl = Some sendBtn"
  shows "\<exists>el'. getElement (document (injectButton composeEl s)) (ident composeEl) = Some el'
           \<and> hasAttribute el' PROCESSED_ATTR"
proof -
  let ?r = "ident composeEl"
  let ?d1 = "setAttributeIn ?r PROCESSED_ATTR ''true'' (document s)"
  let ?btn = "buildButton (nextId s) sendBtn"
  have d1: "getElement ?d1 ?r = Some (setAttributeIn ?r PROCESSED_ATTR ''true'' composeEl)"
    by (simp add: getElement_setAttributeIn res)
  have "\<forall>e \<in> set (subtree ?btn). ident e \<noteq> ?r"
    using fresh by (simp add: subtree_buildButton ident_buildButton)
  from getElement_insertAfter [OF this, of "ident sendBtn" ?d1]
  have "map_option shallow (getElement (insertAfter (ident sendBtn) ?btn ?d1) ?r)
        = Some (shallow (setAttributeIn ?r PROCESSED_ATTR ''true'' composeEl))"
    by (simp add: d1)
  then obtain el' where el': "getElement (insertAfter (ident sendBtn) ?btn ?d1) ?r = Some el'"
      and sh: "shallow el' = shallow (setAttributeIn ?r PROCESSED_ATTR ''true'' composeEl)"
    by auto
  have "hasAttribute el' PROCESSED_ATTR"
    by (simp add: hasAttribute_shallow [OF sh] hasAttribute_update)
  with el' show ?thesis
    by (simp add: injectButton_inject [OF unm send])
qed

lemma tryInject_marked:
  "getElement (document s) r = Some el \<Longrightarrow> hasAttribute el PROCESSED_ATTR \<Longrightarrow>
   tryInjectWithRetry r n s = s"
  by (simp add: tryInjectWithRetry_def)

lemma inject_fixpoint:
  assumes res: "getElement (document s) (ident composeEl) = Some composeEl"
    and fresh: "ident composeEl < nextId s"
    and send: "findSendButton composeEl = Some sendBtn"
  shows "\<exists>el'. getElement (document (injectButton composeEl s)) (ident composeEl) = Some el'
           \<and> hasAttribute el' PROCESSED_ATTR
           \<and> injectButton el' (injectButton composeEl s) = injectButton composeEl s
           \<and> tryInjectWithRetry (ident composeEl) n (injectButton composeEl s)
               = injectButton composeEl s"
proof (cases "hasAttribute composeEl PROCESSED_ATTR")
  case True
  then show ?thesis using res
    by (simp add: injectButton_marked tryInject_marked)
next
  case False
  from injectButton_marks_region [OF res fresh False send]
  obtain el' where "getElement (document (injectButton composeEl s)) (ident composeEl) = Some el'"
    and "hasAttribute el' PROCESSED_ATTR" by blast
  then show ?thesis
    by (simp add: injectButton_marked tryInject_marked)
qed

subsection \<open>Fields after each call\<close>

lemma emit_fields [simp]:
  "document (emit es s) = document s" "nextId (emit es s) = nextId s"
  "timers (emit es s) = timers s" "nextTimer (emit es s) = nextTimer s"
  "idleSupported (emit es s) = idleSupported s" "idleCallbacks (emit es s) = idleCallbacks s"
  "nextIdle (emit es s) = nextIdle s" "scanTimer (emit es s) = scanTimer s"
  "observers (emit es s) = observers s" "nextObserver (emit es s) = nextObserver s"
  "listeners (emit es s) = listeners s" "trace (emit es s) = trace s @ es"
  by (simp_all add: emit_def)

lemma setTimeout_fields [simp]:
  "document (setTimeout cb d s) = document s" "nextId (setTimeout cb d s) = nextId s"
  "timers (setTimeout cb d s) = timers s @ [(nextTimer s, d, cb)]"
  "nextTimer (setTimeout cb d s) = Suc (nextTimer s)"
  "idleSupported (setTimeout cb d s) = idleSupported s"
  "idleCallbacks (setTimeout cb d s) = idleCallbacks s"
  "nextIdle (setTimeout cb d s) = nextIdle s" "scanTimer (setTimeout cb d s) = scanTimer s"
  "observers (setTimeout cb d s) = observers s"
  "nextObserver (setTimeout cb d s) = nextObserver s"
  "listeners (setTimeout cb d s) = listeners s"
  "trace (setTimeout cb d s) = trace s @ [SetTimeout (nextTimer s) cb d]"
  by (simp_all add: setTimeout_def)

lemma simulateClick_fields [simp]:
  "document (simulateClick el s) = document s" "nextId (simulateClick el s) = nextId s"
  "timers (simulateClick el s) = timers s" "nextTimer (simulateClick el s) = nextTimer s"
  "idleSupported (simulateClick el s) = idleSupported s"
  "idleCallbacks (simulateClick el s) = idleCallbacks s"
  "nextIdle (simulateClick el s) = nextIdle s" "scanTimer (simulateClick el s) = scanTimer s"
  "observers (simulateClick el s) = observers s"
  "nextObserver (simulateClick el s) = nextObserver s"
  "listeners (simulateClick el s) = listeners s"
  "trace (simulateClick el s) = trace s @ [DispatchEvent el ''mousedown'',
     DispatchEvent el ''mouseup'', DispatchEvent el ''click'']"
  by (simp_all add: simulateClick_def)

lemma showToast_fields [simp]:
  "nextId (showToast m s) = Suc (nextId s)"
  "timers (showToast m s) = timers s @ [(nextTimer s, 5000, ToastFade (nextId s))]"
  "nextTimer (showToast m s) = Suc (nextTimer s)"
  "idleSupported (showToast m s) = idleSupported s"
  "idleCallbacks (showToast m s) = idleCallbacks s"
  "nextIdle (showToast m s) = nextIdle s" "scanTimer (showToast m s) = scanTimer s"
  "observers (showToast m s) = observers s"
  "nextObserver (showToast m s) = nextObserver s"
  "listeners (showToast m s) = listeners s"
  by (simp_all add: showToast_def Let_def split: option.splits)

lemma showToast_trace:
  "trace (showToast m s) = trace s @ ShowToast m #
     (case docQuerySelector (document s) (attrEquals ''id'' ''sab-toast'') of
        Some existing \<Rightarrow> [RemoveElement (ident existing)] | None \<Rightarrow> [])
     @ [AppendChild (nextId s), SetTimeout (nextTimer s) (ToastFade (nextId s)) 5000]"
  by (simp add: showToast_def Let_def split: option.splits)

lemma clearTimeout_fields [simp]:
  "document (clearTimeout t s) = document s"
  "nextId (clearTimeout t s) = nextId s"
  "timers (clearTimeout t s) = filter (\<lambda>e. fst e \<noteq> t) (timers s)"
  "nextTimer (clearTimeout t s) = nextTimer s"
  "idleSupported (clearTimeout t s) = idleSupported s"
  "idleCallbacks (clearTimeout t s) = idleCallbacks s"
  "nextIdle (clearTimeout t s) = nextIdle s"
  "scanTimer (clearTimeout t s) = scanTimer s"
  "observers (clearTimeout t s) = observers s"
  "nextObserver (clearTimeout t s) = nextObserver s"
  "listeners (clearTimeout t s) = listeners s"
  "trace (clearTimeout t s) = trace s @ [ClearTimeout t]"
  by (simp_all add: clearTimeout_def)

lemma requestIdleCallback_fields [simp]:
  "document (requestIdleCallback cb d s) = document s"
  "nextId (requestIdleCallback cb d s) = nextId s"
  "timers (requestIdleCallback cb d s) = timers s"
  "nextTimer (requestIdleCallback cb d s) = nextTimer s"
  "idleSupported (requestIdleCallback cb d s) = idleSupported s"
  "idleCallbacks (requestIdleCallback cb d s) = idleCallbacks s @ [(nextIdle s, d, cb)]"
  "nextIdle (requestIdleCallback cb d s) = Suc (nextIdle s)"
  "scanTimer (requestIdleCallback cb d s) = scanTimer s"
  "observers (requestIdleCallback cb d s) = observers s"
  "nextObserver (requestIdleCallback cb d s) = nextObserver s"
  "listeners (requestIdleCallback cb d s) = listeners s"
  "trace (requestIdleCallback cb d s) = trace s @ [RequestIdleCallback (nextIdle s) cb d]"
  by (simp_all add: requestIdleCallback_def)

lemma observe_fields [simp]:
  "document (observe oid ob s) = document s"
  "nextId (observe oid ob s) = nextId s"
  "timers (observe oid ob s) = timers s"
  "nextTimer (observe oid ob s) = nextTimer s"
  "idleSupported (observe oid ob s) = idleSupported s"
  "idleCallbacks (observe oid ob s) = idleCallbacks s"
  "nextIdle (observe oid ob s) = nextIdle s"
  "scanTimer (observe oid ob s) = scanTimer s"
  "observers (observe oid ob s) = AList.update oid ob (observers s)"
  "nextObserver (observe oid ob s) = nextObserver s"
  "listeners (observe oid ob s) = listeners s"
  "trace (observe oid ob s) = trace s @ [Observe oid ob]"
  by (simp_all add: observe_def)

lemma disconnect_fields [simp]:
  "document (disconnect oid s) = document s"
  "nextId (disconnect oid s) = nextId s"
  "timers (disconnect oid s) = timers s"
  "nextTimer (disconnect oid s) = nextTimer s"
  "idleSupported (disconnect oid s) = idleSupported s"
  "idleCallbacks (disconnect oid s) = idleCallbacks s"
  "nextIdle (disconnect oid s) = nextIdle s"
  "scanTimer (disconnect oid s) = scanTimer s"
  "observers (disconnect oid s) = filter (\<lambda>e. fst e \<noteq> oid) (observers s)"
  "nextObserver (disconnect oid s) = nextObserver s"
  "listeners (disconnect oid s) = listeners s"
  "trace (disconnect oid s) = trace s @ [Disconnect oid]"
  by (simp_all add: disconnect_def)

lemma addEventListener_fields [simp]:
  "document (addEventListener tg ty c h s) = document s"
  "nextId (addEventListener tg ty c h s) = nextId s"
  "timers (addEventListener tg ty c h s) = timers s"
  "nextTimer (addEventListener tg ty c h s) = nextTimer s"
  "idleSupported (addEventListener tg ty c h s) = idleSupported s"
  "idleCallbacks (addEventListener tg ty c h s) = idleCallbacks s"
  "nextIdle (addEventListener tg ty c h s) = nextIdle s"
  "scanTimer (addEventListener tg ty c h s) = scanTimer s"
  "observers (addEventListener tg ty c h s) = observers s"
  "nextObserver (addEventListener tg ty c h s) = nextObserver s"
  "listeners (addEventListener tg ty c h s) = listeners s @ [(tg, ty, c, h)]"
  "trace (addEventListener tg ty c h s) = trace s @ [AddEventListener tg ty c h]"
  by (simp_all add: addEventListener_def)

lemma setAttribute_fields [simp]:
  "document (setAttribute r n v s) = setAttributeIn r n v (document s)"
  "nextId (setAttribute r n v s) = nextId s"
  "timers (setAttribute r n v s) = timers s"
  "nextTimer (setAttribute r n v s) = nextTimer s"
  "idleSupported (setAttribute r n v s) = idleSupported s"
  "idleCallbacks (setAttribute r n v s) = idleCallbacks s"
  "nextIdle (setAttribute r n v s) = nextIdle s"
  "scanTimer (setAttribute r n v s) = scanTimer s"
  "observers (setAttribute r n v s) = observers s"
  "nextObserver (setAttribute r n v s) = nextObserver s"
  "listeners (setAttribute r n v s) = listeners s"
  "trace (setAttribute r n v s) = trace s @ [SetAttribute r n v]"
  by (simp_all add: setAttribute_def)

lemma insertAdjacentAfter_fields [simp]:
  "document (insertAdjacentAfter r new s) = insertAfter r new (document s)"
  "nextId (insertAdjacentAfter r new s) = nextId s"
  "timers (insertAdjacentAfter r new s) = timers s"
  "nextTimer (insertAdjacentAfter r new s) = nextTimer s"
  "idleSupported (insertAdjacentAfter r new s) = idleSupported s"
  "idleCallbacks (insertAdjacentAfter r new s) = idleCallbacks s"
  "nextIdle (insertAdjacentAfter r new s) = nextIdle s"
  "scanTimer (insertAdjacentAfter r new s) = scanTimer s"
  "observers (insertAdjacentAfter r new s) = observers s"
  "nextObserver (insertAdjacentAfter r new s) = nextObserver s"
  "listeners (insertAdjacentAfter r new s) = listeners s"
  "trace (insertAdjacentAfter r new s) = trace s @ [InsertAfter r (ident new)]"
  by (simp_all add: insertAdjacentAfter_def)

lemma toastFade_fields [simp]:
  "document (toastFade t s) = document s"
  "nextId (toastFade t s) = nextId s"
  "timers (toastFade t s) = timers s @ [(nextTimer s, 400, ToastRemove t)]"
  "nextTimer (toastFade t s) = Suc (nextTimer s)"
  "idleSupported (toastFade t s) = idleSupported s"
  "idleCallbacks (toastFade t s) = idleCallbacks s"
  "nextIdle (toastFade t s) = nextIdle s"
  "scanTimer (toastFade t s) = scanTimer s"
  "observers (toastFade t s) = observers s"
  "nextObserver (toastFade t s) = nextObserver s"
  "listeners (toastFade t s) = listeners s"
  "trace (toastFade t s) = trace s @ [SetTimeout (nextTimer s) (ToastRemove t) 400]"
  by (simp_all add: toastFade_def)

lemma toastRemove_fields [simp]:
  "document (toastRemove t s) = removeElement t (document s)"
  "nextId (toastRemove t s) = nextId s"
  "timers (toastRemove t s) = timers s"
  "nextTimer (toastRemove t s) = nextTimer s"
  "idleSupported (toastRemove t s) = idleSupported s"
  "idleCallbacks (toastRemove t s) = idleCallbacks s"
  "nextIdle (toastRemove t s) = nextIdle s"
  "scanTimer (toastRemove t s) = scanTimer s"
  "observers (toastRemove t s) = observers s"
  "nextObserver (toastRemove t s) = nextObserver s"
  "listeners (toastRemove t s) = listeners s"
  "trace (toastRemove t s) = trace s @ [RemoveElement t]"
  by (simp_all add: toastRemove_def)

lemma watchComposeForRemoval_fields [simp]:
  "document (watchComposeForRemoval r s) = document s"
  "nextId (watchComposeForRemoval r s) = nextId s"
  "timers (watchComposeForRemoval r s) = timers s"
  "nextTimer (watchComposeForRemoval r s) = nextTimer s"
  "idleSupported (watchComposeForRemoval r s) = idleSupported s"
  "idleCallbacks (watchComposeForRemoval r s) = idleCallbacks s"
  "nextIdle (watchComposeForRemoval r s) = nextIdle s"
  "scanTimer (watchComposeForRemoval r s) = scanTimer s"
  "observers (watchComposeForRemoval r s) = AList.update (nextObserver s) (RemovalObserver r) (observers s)"
  "nextObserver (watchComposeForRemoval r s) = Suc (nextObserver s)"
  "listeners (watchComposeForRemoval r s) = listeners s"
  "trace (watchComposeForRemoval r s) = trace s @ [Observe (nextObserver s) (RemovalObserver r)]"
  by (simp_all add: watchComposeForRemoval_def)

lemma onRemoved_fields [simp]:
  "document (onRemoved s) = document s"
  "nextId (onRemoved s) = nextId s"
  "timers (onRemoved s) = timers s @ [(nextTimer s, 2000, ArchiveDefault)]"
  "nextTimer (onRemoved s) = Suc (nextTimer s)"
  "idleSupported (onRemoved s) = idleSupported s"
  "idleCallbacks (onRemoved s) = idleCallbacks s"
  "nextIdle (onRemoved s) = nextIdle s"
  "scanTimer (onRemoved s) = scanTimer s"
  "observers (onRemoved s) = observers s"
  "nextObserver (onRemoved s) = nextObserver s"
  "listeners (onRemoved s) = listeners s"
  "trace (onRemoved s) = trace s @ [SetTimeout (nextTimer s) ArchiveDefault 2000]"
  by (simp_all add: onRemoved_def)


lemma injectButton_timers [simp]:
  "timers (injectButton el s) = timers s" "nextTimer (injectButton el s) = nextTimer s"
  "scanTimer (injectButton el s) = scanTimer s" "idleCallbacks (injectButton el s) = idleCallbacks s"
  "observers (injectButton el s) = observers s" "nextObserver (injectButton el s) = nextObserver s"
  by (simp_all add: injectButton_def Let_def split: option.splits)

lemma foldl_preserves:
  assumes "\<And>s x. P s \<Longrightarrow> P (f s x)" and "P s"
  shows "P (foldl f s xs)"
  using assms(2) by (induction xs arbitrary: s) (auto intro: assms(1))

lemma runHandlers_preserves:
  assumes "\<And>h e s. P s \<Longrightarrow> P (snd (invoke h e s))" and "P s"
  shows "P (snd (runHandlers invoke hs e s))"
  using assms(2)
proof (induction hs arbitrary: e s)
  case Nil
  then show ?case by simp
next
  case (Cons h hs)
  show ?case
  proof (cases "immediateStopped e")
    case True
    then show ?thesis using Cons.prems by simp
  next
    case False
    obtain e' s' where inv: "invoke h e s = (e', s')" by (cases "invoke h e s")
    with assms(1) [OF Cons.prems, of h e] have "P s'" by simp
    from Cons.IH [OF this] show ?thesis using False inv by simp
  qed
qed

lemma find_fstD: "find (\<lambda>e. fst e = t) xs = Some e \<Longrightarrow> e \<in> set xs \<and> fst e = t"
  by (induction xs) (auto split: if_splits)

lemma distinct_fst_unique:
  "distinct (map fst xs) \<Longrightarrow> a \<in> set xs \<Longrightarrow> b \<in> set xs \<Longrightarrow> fst a = fst b \<Longrightarrow> a = b"
  by (auto simp: distinct_map dest: inj_onD)

lemma distinct_count_le: "distinct xs \<Longrightarrow> count_list xs x \<le> Suc 0"
  by (induction xs) auto


subsection \<open>Identities of created elements are new\<close>

lemma idents_setAttributeIn:
  "ident ` set (subtree (setAttributeIn r n v t)) = ident ` set (subtree t)"
  by (simp add: subtree_setAttributeIn image_image)

lemma idents_insertAfter:
  assumes "i \<in> ident ` set (subtree (insertAfter r new t))"
  shows "i \<in> ident ` set (subtree t) \<or> i \<in> ident ` set (subtree new)"
proof (rule ccontr)
  assume "\<not> ?thesis"
  then have no: "i \<notin> ident ` set (subtree t)" and nn: "i \<notin> ident ` set (subtree new)" by auto
  from nn have "filter (\<lambda>p. fst p = i) (map shallow (subtree new)) = []"
    by (auto simp: filter_empty_conv shallow_def)
  from insertAfter_filter(1) [OF this, of r t]
  have eq: "filter (\<lambda>p. fst p = i) (map shallow (subtree (insertAfter r new t)))
        = filter (\<lambda>p. fst p = i) (map shallow (subtree t))" .
  from no have "filter (\<lambda>p. fst p = i) (map shallow (subtree t)) = []"
    by (auto simp: filter_empty_conv shallow_def)
  with eq have "filter (\<lambda>p. fst p = i) (map shallow (subtree (insertAfter r new t))) = []"
    by simp
  then have "i \<notin> ident ` set (subtree (insertAfter r new t))"
    by (auto simp: filter_empty_conv shallow_def)
  with assms show False by simp
qed

lemma ident_removeElement [simp]: "ident (removeElement i e) = ident e"
  by (cases e) simp

lemma idents_removeElement:
  "ident ` set (subtree (removeElement i t)) \<subseteq> ident ` set (subtree t)"
proof (induction t)
  case (Element j tg a x cs)
  have "ident ` set (concat (map subtree (map (removeElement i) (filter (\<lambda>c. ident c \<noteq> i) cs))))
        \<subseteq> ident ` set (concat (map subtree cs))"
  proof
    fix k
    assume "k \<in> ident ` set (concat (map subtree (map (removeElement i)
                  (filter (\<lambda>c. ident c \<noteq> i) cs))))"
    then obtain c where c: "c \<in> set cs" and k: "k \<in> ident ` set (subtree (removeElement i c))"
      by auto
    from Element [OF c] k have "k \<in> ident ` set (subtree c)" by blast
    with c show "k \<in> ident ` set (concat (map subtree cs))" by auto
  qed
  then show ?case by (auto simp: subtree_Element)
qed

lemma idents_appendChild:
  "ident ` set (subtree (appendChild new t))
     = ident ` set (subtree t) \<union> ident ` set (subtree new)"
  by (cases t) (auto simp: appendChild_def subtree_Element)

lemma fold_max_ge: "a \<le> fold max xs (a :: nat)"
  by (induction xs arbitrary: a) (auto intro: order_trans [OF max.cobounded2])

lemma fold_max_mem: "x \<in> set xs \<Longrightarrow> x \<le> fold max xs (a :: nat)"
proof (induction xs arbitrary: a)
  case Nil
  then show ?case by simp
next
  case (Cons y ys)
  show ?case
  proof (cases "x = y")
    case True
    have "max y a \<le> fold max ys (max y a)" by (rule fold_max_ge)
    with True show ?thesis by simp
  next
    case False
    with Cons show ?thesis by simp
  qed
qed

lemma maxIdent_ge: "e \<in> set (subtree doc) \<Longrightarrow> ident e \<le> maxIdent doc"
  by (simp add: maxIdent_def fold_max_mem)

lemma idsFresh_frame:
  assumes "idsFresh s" and "document s' = document s" and "nextId s \<le> nextId s'"
  shows "idsFresh s'"
  using assms by (auto simp: idsFresh_def)

lemma idsFresh_host: "idsFresh (s\<lparr>document := d, nextId := max (nextId s) (Suc (maxIdent d))\<rparr>)"
  by (auto simp: idsFresh_def dest!: maxIdent_ge)

lemma idsFresh_toastRemove: "idsFresh s \<Longrightarrow> idsFresh (toastRemove t s)"
  using idents_removeElement [of t "document s"]
  by (auto simp: idsFresh_def subset_iff image_iff) 

lemma idsFresh_showToast:
  assumes "idsFresh s"
  shows "idsFresh (showToast m s)"
proof -
  define d where "d = (case docQuerySelector (document s) (attrEquals ''id'' ''sab-toast'') of
                         Some existing \<Rightarrow> removeElement (ident existing) (document s)
                       | None \<Rightarrow> document s)"
  let ?toast = "Element (nextId s) ''div'' [(''id'', ''sab-toast''), (''role'', ''alert'')] m []"
  have doc: "document (showToast m s) = appendChild ?toast d"
    and nxt: "nextId (showToast m s) = Suc (nextId s)"
    by (simp_all add: showToast_def Let_def d_def split: option.splits)
  have sub: "ident ` set (subtree d) \<subseteq> ident ` set (subtree (document s))"
    using idents_removeElement [of _ "document s"]
    by (simp add: d_def split: option.splits)
  have "\<forall>e \<in> set (subtree (appendChild ?toast d)). ident e < Suc (nextId s)"
  proof
    fix e assume "e \<in> set (subtree (appendChild ?toast d))"
    then have "ident e \<in> ident ` set (subtree (appendChild ?toast d))" by (rule imageI)
    then have "ident e \<in> ident ` set (subtree d) \<or> ident e = nextId s"
      by (auto simp: idents_appendChild subtree_Element)
    then consider (old) "ident e \<in> ident ` set (subtree d)" | (new) "ident e = nextId s"
      by blast
    then show "ident e < Suc (nextId s)"
    proof cases
      case old
      with sub have "ident e \<in> ident ` set (subtree (document s))" by blast
      then obtain x where "x \<in> set (subtree (document s))" and "ident e = ident x" by auto
      with assms show ?thesis by (auto simp: idsFresh_def less_Suc_eq)
    next
      case new
      then show ?thesis by simp
    qed
  qed
  then show ?thesis by (simp add: idsFresh_def doc nxt)
qed

lemma idsFresh_archive: "idsFresh s \<Longrightarrow> idsFresh (archiveCurrentConversation n s)"
proof -
  assume inv: "idsFresh s"
  have e: "idsFresh (emit [Query FindArchive] s)"
    by (rule idsFresh_frame [OF inv]) simp_all
  show ?thesis
  proof (cases "archiveBtn (document s)")
    case (Some b)
    have "idsFresh (simulateClick (ident b) (emit [Query FindArchive] s))"
      by (rule idsFresh_frame [OF inv]) simp_all
    with Some show ?thesis by (simp add: archiveCurrentConversation_def Let_def)
  next
    case None
    have "idsFresh (setTimeout (ArchiveRetry (n - 1)) 300 (emit [Query FindArchive] s))"
      by (rule idsFresh_frame [OF inv]) simp_all
    with None idsFresh_showToast [OF e] show ?thesis
      by (simp add: archiveCurrentConversation_def Let_def)
  qed
qed

lemma idsFresh_injectButton:
  assumes inv: "idsFresh s"
  shows "idsFresh (injectButton el s)"
proof (cases "\<not> hasAttribute el PROCESSED_ATTR \<and> (\<exists>sb. findSendButton el = Some sb)")
  case False
  have "idsFresh (emit [Query (FindSendButton (ident el))] s)"
    by (rule idsFresh_frame [OF inv]) simp_all
  with False inv show ?thesis
    by (auto simp: injectButton_def Let_def split: option.splits)
next
  case True
  then obtain sb where unm: "\<not> hasAttribute el PROCESSED_ATTR" and sb: "findSendButton el = Some sb"
    by blast
  let ?d1 = "setAttributeIn (ident el) PROCESSED_ATTR ''true'' (document s)"
  let ?btn = "buildButton (nextId s) sb"
  have "\<forall>i \<in> ident ` set (subtree (insertAfter (ident sb) ?btn ?d1)). i < Suc (nextId s)"
  proof
    fix i assume "i \<in> ident ` set (subtree (insertAfter (ident sb) ?btn ?d1))"
    from idents_insertAfter [OF this]
    have "i \<in> ident ` set (subtree (document s)) \<or> i = nextId s"
      by (simp add: idents_setAttributeIn subtree_buildButton ident_buildButton)
    with inv show "i < Suc (nextId s)" by (auto simp: idsFresh_def)
  qed
  then show ?thesis
    by (simp add: injectButton_inject [OF unm sb] idsFresh_def)
qed

lemma idsFresh_tryInject: "idsFresh s \<Longrightarrow> idsFresh (tryInjectWithRetry r n s)"
proof -
  assume inv: "idsFresh s"
  let ?s1 = "emit [Query (FindSendButton r)] s"
  have e: "idsFresh ?s1" by (rule idsFresh_frame [OF inv]) simp_all
  have t: "idsFresh (setTimeout (InjectRetry r (n - 1)) 300 ?s1)"
    by (rule idsFresh_frame [OF inv]) simp_all
  from inv e t idsFresh_injectButton [OF e] show ?thesis
    by (simp add: tryInjectWithRetry_def Let_def split: option.splits)
qed

lemma idsFresh_scanDw: "idsFresh s \<Longrightarrow> idsFresh (scanDw s dw)"
proof (cases "getElement (document s) dw")
  case None
  assume "idsFresh s" with None show ?thesis by (simp add: scanDw_def)
next
  case (Some dwEl)
  assume inv: "idsFresh s"
  have "idsFresh (foldl (\<lambda>s' composeEl. tryInjectWithRetry composeEl 6 s') s
                  (map ident (findComposeWindows (document s) dwEl)))"
    by (rule foldl_preserves [where P = idsFresh]) (simp_all add: idsFresh_tryInject inv)
  with Some show ?thesis by (simp add: scanDw_def)
qed

lemma idsFresh_scanAll:
  assumes "idsFresh s"
  shows "idsFresh (scanAll s)"
proof -
  have "idsFresh (s\<lparr>scanTimer := None\<rparr>)"
    by (rule idsFresh_frame [OF assms]) simp_all
  then have "idsFresh (foldl scanDw (s\<lparr>scanTimer := None\<rparr>)
               (map ident (docQuerySelectorAll (document s) (hasClass ''dw''))))"
    by (rule foldl_preserves [where P = idsFresh, rotated]) (rule idsFresh_scanDw)
  then show ?thesis by (simp add: scanAll_def Let_def)
qed

lemma scheduleScan_document [simp]:
  "document (scheduleScan d s) = document s" "nextId (scheduleScan d s) = nextId s"
  by (simp_all add: scheduleScan_def Let_def split: option.splits)

lemma trigger_document [simp]:
  "document (triggerSendAndArchive el sb s) = document s"
  "nextId (triggerSendAndArchive el sb s) = nextId s"
  by (simp_all add: triggerSendAndArchive_def Let_def split: option.splits)

lemma removalCallback_document [simp]:
  "document (removalCallback oid r s) = document s"
  "nextId (removalCallback oid r s) = nextId s"
  by (simp_all add: removalCallback_def)

lemma idsFresh_invokeClick: "idsFresh s \<Longrightarrow> idsFresh (snd (invokeClick h e s))"
  by (cases h)
     (auto simp: invokeClick_def buttonClickHandler_def split: option.splits
        intro: idsFresh_frame [where s = s])

lemma idsFresh_dispatchClick: "idsFresh s \<Longrightarrow> idsFresh (snd (dispatchClick t s))"
  unfolding dispatchClick_def
  by (rule runHandlers_preserves [where P = idsFresh]) (simp_all add: idsFresh_invokeClick)

lemma idsFresh_invokeKeydown: "idsFresh s \<Longrightarrow> idsFresh (snd (invokeKeydown h e s))"
proof (cases h)
  case (ChordHandler r sb)
  assume inv: "idsFresh s"
  have "\<And>el. idsFresh (triggerSendAndArchive el sb s)"
    by (rule idsFresh_frame [OF inv]) simp_all
  with inv ChordHandler show ?thesis
    by (simp add: invokeKeydown_def chordHandler_def split: option.splits)
next
  case (ButtonKeydown b)
  assume inv: "idsFresh s"
  have "idsFresh (emit [Click b] s)" by (rule idsFresh_frame [OF inv]) simp_all
  with inv ButtonKeydown show ?thesis
    by (simp add: invokeKeydown_def buttonKeydownHandler_def idsFresh_dispatchClick)
next
  case (ButtonClick r sb)
  assume "idsFresh s" with ButtonClick show ?thesis by (simp add: invokeKeydown_def)
qed

lemma idsFresh_dispatchKeydown: "idsFresh s \<Longrightarrow> idsFresh (snd (dispatchKeydown t e s))"
  unfolding dispatchKeydown_def
  by (rule runHandlers_preserves [where P = idsFresh]) (simp_all add: idsFresh_invokeKeydown)

lemma idsFresh_runCallback:
  assumes inv: "idsFresh s"
  shows "idsFresh (runCallback cb s)"
proof (cases cb)
  case (SendClick b)
  have "idsFresh (emit [Click b] s)" by (rule idsFresh_frame [OF inv]) simp_all
  with SendClick show ?thesis by (simp add: runCallback_def)
next
  case (ToastFade t)
  have "idsFresh (toastFade t s)" by (rule idsFresh_frame [OF inv]) simp_all
  with ToastFade show ?thesis by (simp add: runCallback_def)
next
  case StartObserver
  have "idsFresh (observe 0 MainObserver s)" by (rule idsFresh_frame [OF inv]) simp_all
  with StartObserver show ?thesis by (simp add: runCallback_def)
next
  case InitialScan
  have "idsFresh (scheduleScan 0 s)" by (rule idsFresh_frame [OF inv]) simp_all
  with InitialScan show ?thesis by (simp add: runCallback_def)
qed (simp_all add: runCallback_def inv idsFresh_archive idsFresh_tryInject idsFresh_scanAll
      idsFresh_toastRemove)

lemma idsFresh_step:
  assumes inv: "idsFresh s"
  shows "idsFresh (step s ev)"
proof (cases ev)
  case (Host d)
  then show ?thesis by (simp add: step_def idsFresh_host)
next
  case (Fire t)
  show ?thesis
  proof (cases "find (\<lambda>e. fst e = t) (timers s)")
    case None
    then show ?thesis using Fire inv by (simp add: step_def)
  next
    case (Some e)
    have "idsFresh (s\<lparr>timers := filter (\<lambda>e. fst e \<noteq> t) (timers s)\<rparr>)"
      by (rule idsFresh_frame [OF inv]) simp_all
    from idsFresh_runCallback [OF this] show ?thesis using Fire Some by (simp add: step_def)
  qed
next
  case (Idle t)
  show ?thesis
  proof (cases "find (\<lambda>e. fst e = t) (idleCallbacks s)")
    case None
    then show ?thesis using Idle inv by (simp add: step_def)
  next
    case (Some e)
    have "idsFresh (s\<lparr>idleCallbacks := filter (\<lambda>e. fst e \<noteq> t) (idleCallbacks s)\<rparr>)"
      by (rule idsFresh_frame [OF inv]) simp_all
    from idsFresh_runCallback [OF this] show ?thesis using Idle Some by (simp add: step_def)
  qed
next
  case (Notify oid m)
  have a: "idsFresh (mainObserverCallback m s)"
    by (rule idsFresh_frame [OF inv]) (simp_all add: mainObserverCallback_def)
  have b: "\<And>r. idsFresh (removalCallback oid r s)"
    by (rule idsFresh_frame [OF inv]) simp_all
  from a b inv Notify show ?thesis
    by (simp add: step_def split: option.splits observer.splits)
next
  case (KeyDown t e)
  then show ?thesis using inv by (simp add: step_def idsFresh_dispatchKeydown)
next
  case (MouseClick t)
  then show ?thesis using inv by (simp add: step_def idsFresh_dispatchClick)
qed

lemma idsFresh_run: "idsFresh s \<Longrightarrow> idsFresh (run s evs)"
  unfolding run_def by (rule foldl_preserves [where P = idsFresh]) (simp_all add: idsFresh_step)

lemma idsFresh_init: "idsFresh (init idle doc)"
  by (auto simp: init_def runWhenIdle_def idsFresh_def less_Suc_eq_le dest!: maxIdent_ge)

lemma reachable_region_fresh:
  assumes "getElement (document (run (init idle doc) evs)) r = Some el"
  shows "ident el < nextId (run (init idle doc) evs)"
proof -
  from assms have "el \<in> set (subtree (document (run (init idle doc) evs)))"
    by (auto simp: getElement_def dest: find_SomeD)
  with idsFresh_run [OF idsFresh_init, of idle doc evs] show ?thesis
    by (simp add: idsFresh_def)
qed

subsection \<open>The finders on a region that has received the synthetic control\<close>

lemma find_filter_conj: "find P (filter Q xs) = find (\<lambda>x. Q x \<and> P x) xs"
  by (induction xs) auto

lemma find_map_cong:
  assumes "\<And>x. P (g x) = P x"
  shows "find P (map g xs) = map_option g (find P xs)"
  using assms by (induction xs) auto

lemma filter_map_cong:
  assumes "\<And>x. P (g x) = P x"
  shows "filter P (map g xs) = map g (filter P xs)"
  using assms by (induction xs) auto

lemma getAttribute_setAttributeIn:
  "m \<noteq> n \<Longrightarrow> getAttribute (setAttributeIn r n v e) m = getAttribute e m"
  by (simp add: getAttribute_def attrs_setAttributeIn update_conv')

lemma descendants_setAttributeIn:
  "descendants (setAttributeIn r n v e) = map (setAttributeIn r n v) (descendants e)"
  using subtree_setAttributeIn [of r n v e] by (simp add: subtree_def)





lemmas finder_preds = sendByClass_def sendByLabel_def nativeHost_def
  hasClass_def classList_def className_def getAttributeOr_def hasAttribute_def
  ariaSendSelector_def nativeSelector_def attrEquals_def attrPrefix_def

lemma findSendButton_find:
  "findSendButton el = orElse (find sendByClass (descendants el)) (find sendByLabel (descendants el))"
  by (simp add: findSendButton_def orElse_def querySelectorAll_def scanByClass_find
      scanByAriaLabel_find find_filter_conj sendByClass_def [abs_def] sendByLabel_def [abs_def]
      split: option.splits)

lemma findNative_find:
  "findNativeSendAndArchiveButton el = find nativeHost (descendants el)"
  by (simp add: findNativeSendAndArchiveButton_def querySelectorAll_def firstNotOurs_find
      find_filter_conj nativeHost_def [abs_def])

lemma preds_setAttributeIn:
  "sendByClass (setAttributeIn r PROCESSED_ATTR v e) = sendByClass e"
  "sendByLabel (setAttributeIn r PROCESSED_ATTR v e) = sendByLabel e"
  "nativeHost (setAttributeIn r PROCESSED_ATTR v e) = nativeHost e"
  "hasClass c (setAttributeIn r PROCESSED_ATTR v e) = hasClass c e"
  "ariaSendSelector (setAttributeIn r PROCESSED_ATTR v e) = ariaSendSelector e"
  "hasAttribute (setAttributeIn r PROCESSED_ATTR v e) BTN_ATTR = hasAttribute e BTN_ATTR"
  by (simp_all add: finder_preds getAttribute_setAttributeIn PROCESSED_ATTR_def BTN_ATTR_def)

lemma preds_shallow:
  assumes "shallow a = shallow b"
  shows "sendByClass a = sendByClass b" "sendByLabel a = sendByLabel b"
    "nativeHost a = nativeHost b" "hasClass c a = hasClass c b"
    "ariaSendSelector a = ariaSendSelector b"
    "hasAttribute a n = hasAttribute b n"
  using assms by (simp_all add: finder_preds getAttribute_def shallow_def)

lemma findSendButton_setAttributeIn:
  "findSendButton (setAttributeIn r PROCESSED_ATTR v el)
     = map_option (setAttributeIn r PROCESSED_ATTR v) (findSendButton el)"
  by (simp add: findSendButton_find descendants_setAttributeIn find_map_cong preds_setAttributeIn
      orElse_def split: option.splits)

lemma findNative_setAttributeIn:
  "findNativeSendAndArchiveButton (setAttributeIn r PROCESSED_ATTR v el)
     = map_option (setAttributeIn r PROCESSED_ATTR v) (findNativeSendAndArchiveButton el)"
  by (simp add: findNative_find descendants_setAttributeIn find_map_cong preds_setAttributeIn)

text \<open>A search that depends on identity, tag and attributes only.\<close>

lemma find_view:
  assumes cong: "\<And>a b. shallow a = shallow b \<Longrightarrow> P a = P b"
  shows "map_option shallow (find P xs) =
     (case filter (\<lambda>p. \<exists>e. shallow e = p \<and> P e) (map shallow xs) of
        [] \<Rightarrow> None | p # _ \<Rightarrow> Some p)"
proof (induction xs)
  case Nil
  then show ?case by simp
next
  case (Cons x xs)
  have "(\<exists>e. shallow e = shallow x \<and> P e) = P x" using cong by blast
  with Cons show ?case by simp
qed

lemma filter_view:
  assumes cong: "\<And>a b. shallow a = shallow b \<Longrightarrow> P a = P b"
  shows "map shallow (filter P xs) = filter (\<lambda>p. \<exists>e. shallow e = p \<and> P e) (map shallow xs)"
proof (induction xs)
  case Nil
  then show ?case by simp
next
  case (Cons x xs)
  have "(\<exists>e. shallow e = shallow x \<and> P e) = P x" using cong by blast
  with Cons show ?case by simp
qed

lemma view_misses:
  assumes cong: "\<And>a b. shallow a = shallow b \<Longrightarrow> P a = P b"
    and new: "\<forall>e \<in> set xs. \<not> P e"
  shows "filter (\<lambda>p. \<exists>e. shallow e = p \<and> P e) (map shallow xs) = []"
proof -
  have "\<not> (\<exists>e. shallow e = shallow x \<and> P e)" if "x \<in> set xs" for x
  proof
    assume "\<exists>e. shallow e = shallow x \<and> P e"
    then obtain e where "shallow e = shallow x" and "P e" by blast
    then have "P x" using cong [of e x] by simp
    with new that show False by simp
  qed
  then show ?thesis by (simp add: filter_empty_conv)
qed

lemma insertAfter_descendants:
  assumes new: "filter Q (map shallow (subtree new)) = []"
  shows "filter Q (map shallow (descendants (insertAfter r new e)))
         = filter Q (map shallow (descendants e))"
proof -
  from insertAfter_filter(1) [OF new, of r e]
  have "filter Q (shallow e # map shallow (descendants (insertAfter r new e)))
        = filter Q (shallow e # map shallow (descendants e))"
    by (simp add: subtree_def)
  then show ?thesis by (simp split: if_splits)
qed

lemma find_insertAfter:
  assumes cong: "\<And>a b. shallow a = shallow b \<Longrightarrow> P a = P b"
    and new: "\<forall>e \<in> set (subtree new). \<not> P e"
  shows "map_option shallow (find P (descendants (insertAfter r new el)))
         = map_option shallow (find P (descendants el))"
proof -
  have "filter (\<lambda>p. \<exists>e. shallow e = p \<and> P e) (map shallow (subtree new)) = []"
    by (rule view_misses [OF cong new])
  from insertAfter_descendants [OF this, of r el] show ?thesis
    by (simp add: find_view [of P, OF cong])
qed

lemma filter_insertAfter:
  assumes cong: "\<And>a b. shallow a = shallow b \<Longrightarrow> P a = P b"
    and new: "\<forall>e \<in> set (subtree new). \<not> P e"
  shows "map shallow (filter P (descendants (insertAfter r new el)))
         = map shallow (filter P (descendants el))"
proof -
  have "filter (\<lambda>p. \<exists>e. shallow e = p \<and> P e) (map shallow (subtree new)) = []"
    by (rule view_misses [OF cong new])
  from insertAfter_descendants [OF this, of r el] show ?thesis
    by (simp add: filter_view [of P, OF cong])
qed

lemma findSendButton_insertAfter:
  assumes "hasAttribute new BTN_ATTR" and "subtree new = [new]"
  shows "map_option shallow (findSendButton (insertAfter r new el))
         = map_option shallow (findSendButton el)"
proof -
  have a: "map_option shallow (find sendByClass (descendants (insertAfter r new el)))
         = map_option shallow (find sendByClass (descendants el))"
  proof (rule find_insertAfter)
    show "\<And>a b. shallow a = shallow b \<Longrightarrow> sendByClass a = sendByClass b" by (rule preds_shallow)
    show "\<forall>e \<in> set (subtree new). \<not> sendByClass e" by (simp add: assms sendByClass_def)
  qed
  have b: "map_option shallow (find sendByLabel (descendants (insertAfter r new el)))
         = map_option shallow (find sendByLabel (descendants el))"
  proof (rule find_insertAfter)
    show "\<And>a b. shallow a = shallow b \<Longrightarrow> sendByLabel a = sendByLabel b" by (rule preds_shallow)
    show "\<forall>e \<in> set (subtree new). \<not> sendByLabel e" by (simp add: assms sendByLabel_def)
  qed
  have "map_option shallow (orElse x y) = orElse (map_option shallow x) (map_option shallow y)"
    for x y :: "element option"
    by (simp add: orElse_def split: option.splits)
  then show ?thesis by (simp add: findSendButton_find a b)
qed

lemma findNative_insertAfter:
  assumes "hasAttribute new BTN_ATTR" and "subtree new = [new]"
  shows "map_option shallow (findNativeSendAndArchiveButton (insertAfter r new el))
         = map_option shallow (findNativeSendAndArchiveButton el)"
  unfolding findNative_find
  proof (rule find_insertAfter)
    show "\<And>a b. shallow a = shallow b \<Longrightarrow> nativeHost a = nativeHost b" by (rule preds_shallow)
    show "\<forall>e \<in> set (subtree new). \<not> nativeHost e" by (simp add: assms nativeHost_def)
  qed

lemma ident_shallow: "ident e = fst (shallow e)"
  by (simp add: shallow_def)

lemma finders_after_injection:
  "map_option ident (findSendButton
       (insertAfter r (buildButton f sb) (setAttributeIn c PROCESSED_ATTR v el)))
     = map_option ident (findSendButton el)"
  "map_option ident (findNativeSendAndArchiveButton
       (insertAfter r (buildButton f sb) (setAttributeIn c PROCESSED_ATTR v el)))
     = map_option ident (findNativeSendAndArchiveButton el)"
proof -
  let ?m = "setAttributeIn c PROCESSED_ATTR v el"
  let ?b = "buildButton f sb"
  have b: "hasAttribute ?b BTN_ATTR" "subtree ?b = [?b]"
    by (simp_all add: buildButton_marks subtree_buildButton)
  have "map_option fst (map_option shallow (findSendButton (insertAfter r ?b ?m)))
        = map_option fst (map_option shallow (findSendButton ?m))"
    by (simp only: findSendButton_insertAfter [OF b])
  then show "map_option ident (findSendButton (insertAfter r ?b ?m))
             = map_option ident (findSendButton el)"
    by (simp add: option.map_comp comp_def ident_shallow [symmetric] findSendButton_setAttributeIn)
  have "map_option fst (map_option shallow (findNativeSendAndArchiveButton (insertAfter r ?b ?m)))
        = map_option fst (map_option shallow (findNativeSendAndArchiveButton ?m))"
    by (simp only: findNative_insertAfter [OF b])
  then show "map_option ident (findNativeSendAndArchiveButton (insertAfter r ?b ?m))
             = map_option ident (findNativeSendAndArchiveButton el)"
    by (simp add: option.map_comp comp_def ident_shallow [symmetric] findNative_setAttributeIn)
qed

lemma pathTo_setAttributeIn:
  "pathTo i (setAttributeIn r n v t) = map (setAttributeIn r n v) (pathTo i t)"
proof (induction t)
  case (Element j tg a x cs)
  have "find (\<lambda>p. p \<noteq> []) (map (pathTo i) (map (setAttributeIn r n v) cs))
        = map_option (map (setAttributeIn r n v)) (find (\<lambda>p. p \<noteq> []) (map (pathTo i) cs))"
    using Element by (induction cs) auto
  then show ?case by (simp split: option.splits)
qed

lemma contains_setAttributeIn: "contains (setAttributeIn r n v t) k = contains t k"
  by (simp add: contains_def subtree_setAttributeIn image_image)

lemma sendCandidates_setAttributeIn:
  "sendCandidates (setAttributeIn r PROCESSED_ATTR v dw)
     = map (setAttributeIn r PROCESSED_ATTR v) (sendCandidates dw)"
  by (simp add: sendCandidates_def querySelectorAll_def descendants_setAttributeIn
      filter_map_cong preds_setAttributeIn)

lemma collectRoots_setAttributeIn:
  "collectRoots (setAttributeIn r PROCESSED_ATTR v doc) (setAttributeIn r PROCESSED_ATTR v dw)
      (map (setAttributeIn r PROCESSED_ATTR v) els) seen
      (map (setAttributeIn r PROCESSED_ATTR v) res)
   = map (setAttributeIn r PROCESSED_ATTR v) (collectRoots doc dw els seen res)"
proof (induction els arbitrary: seen res)
  case Nil
  then show ?case by simp
next
  case (Cons el els)
  let ?g = "setAttributeIn r PROCESSED_ATTR v"
  define root where "root = (case closest (pathTo (ident el) doc) (hasClass ''nH'') of
                      Some c \<Rightarrow> if contains dw (ident c) then c else dw
                    | None \<Rightarrow> dw)"
  have root: "(case closest (pathTo (ident el) (?g doc)) (hasClass ''nH'') of
                 Some c \<Rightarrow> if contains (?g dw) (ident c) then c else ?g dw
               | None \<Rightarrow> ?g dw) = ?g root"
    by (simp add: root_def closest_def pathTo_setAttributeIn find_map_cong preds_setAttributeIn
        contains_setAttributeIn split: option.splits)
  have step: "collectRoots (?g doc) (?g dw) (map ?g els) (ident root # seen) (map ?g (res @ [root]))
              = map ?g (collectRoots doc dw els (ident root # seen) (res @ [root]))"
    by (rule Cons.IH)
  show ?case
    using Cons.IH [of seen res] step
    by (simp add: preds_setAttributeIn root root_def [symmetric] Let_def)
qed

lemma findComposeWindows_setAttributeIn:
  "findComposeWindows (setAttributeIn r PROCESSED_ATTR v doc) (setAttributeIn r PROCESSED_ATTR v dw)
     = map (setAttributeIn r PROCESSED_ATTR v) (findComposeWindows doc dw)"
  using collectRoots_setAttributeIn [of r v doc dw "sendCandidates dw" "[]" "[]"]
  by (simp add: findComposeWindows_def sendCandidates_setAttributeIn)

lemma pathTo_Nil: "i \<notin> ident ` set (subtree t) \<Longrightarrow> pathTo i t = []"
proof (induction t)
  case (Element j tg a x cs)
  then have "\<forall>c \<in> set cs. pathTo i c = []"
    by (auto simp: subtree_Element)
  then have "find (\<lambda>p. p \<noteq> []) (map (pathTo i) cs) = None"
    by (induction cs) auto
  with Element.prems show ?case by (simp add: subtree_Element)
qed

lemma pathTo_subset: "set (pathTo i t) \<subseteq> set (subtree t)"
proof (induction t)
  case (Element j tg a x cs)
  have "set p \<subseteq> set (concat (map subtree cs))"
    if "find (\<lambda>p. p \<noteq> []) (map (pathTo i) cs) = Some p" for p
  proof -
    from find_SomeD [OF that] obtain c where "c \<in> set cs" and "p = pathTo i c" by auto
    with Element [of c] show ?thesis by auto
  qed
  then have "set (pathTo i (Element j tg a x cs))
             \<subseteq> insert (Element j tg a x cs) (set (concat (map subtree cs)))"
    by (cases "find (\<lambda>p. p \<noteq> []) (map (pathTo i) cs)") auto
  then show ?case by (simp add: subtree_Element)
qed

lemma pathTo_insertAfter:
  assumes "i \<notin> ident ` set (subtree new)"
  shows "map shallow (pathTo i (insertAfter r new t)) = map shallow (pathTo i t)"
    and "map_option (map shallow) (find (\<lambda>p. p \<noteq> []) (map (pathTo i) (insertAfterList r new cs)))
         = map_option (map shallow) (find (\<lambda>p. p \<noteq> []) (map (pathTo i) cs))"
  using assms
proof (induction r new t and r new cs rule: insertAfter_insertAfterList.induct)
  case (1 ref new j tg a x cs)
  from 1 have eq: "map_option (map shallow)
                     (find (\<lambda>p. p \<noteq> []) (map (pathTo i) (insertAfterList ref new cs)))
                   = map_option (map shallow) (find (\<lambda>p. p \<noteq> []) (map (pathTo i) cs))"
    by simp
  have sr: "shallow (Element j tg a x (insertAfterList ref new cs)) = shallow (Element j tg a x cs)"
    by (simp add: shallow_def)
  show ?case
  proof (cases "find (\<lambda>p. p \<noteq> []) (map (pathTo i) cs)")
    case None
    with eq have "find (\<lambda>p. p \<noteq> []) (map (pathTo i) (insertAfterList ref new cs)) = None"
      by simp
    with None show ?thesis by (simp add: sr)
  next
    case (Some p)
    with eq obtain p' where "find (\<lambda>p. p \<noteq> []) (map (pathTo i) (insertAfterList ref new cs)) = Some p'"
      and "map shallow p' = map shallow p" by auto
    with Some show ?thesis by (simp add: sr)
  qed
next
  case (2 ref new)
  then show ?case by simp
next
  case (3 ref new c cs)
  show ?case
  proof (cases "ident c = ref")
    case True
    from 3(3) have "pathTo i new = []" by (rule pathTo_Nil)
    with True show ?thesis by simp
  next
    case False
    from 3(1) [OF False 3(3)]
    have h: "map shallow (pathTo i (insertAfter ref new c)) = map shallow (pathTo i c)" .
    then have e: "(pathTo i (insertAfter ref new c) = []) = (pathTo i c = [])"
      by (metis map_is_Nil_conv)
    from 3(2) [OF False 3(3)] False h e show ?thesis by simp
  qed
qed

lemma contains_filter:
  "contains t k = (filter (\<lambda>p. fst p = k) (map shallow (subtree t)) \<noteq> [])"
  by (auto simp: contains_def filter_empty_conv shallow_def)

lemma contains_insertAfter:
  assumes "k \<notin> ident ` set (subtree new)"
  shows "contains (insertAfter r new t) k = contains t k"
proof -
  have "filter (\<lambda>p. fst p = k) (map shallow (subtree new)) = []"
    using assms by (auto simp: filter_empty_conv shallow_def)
  from insertAfter_filter(1) [OF this, of r t] show ?thesis
    by (simp only: contains_filter)
qed

lemma hostCandidates_insertAfter:
  assumes b: "hasAttribute new BTN_ATTR" and l: "subtree new = [new]"
  shows "map shallow (filter notOurs (sendCandidates (insertAfter r new dw)))
         = map shallow (filter notOurs (sendCandidates dw))"
proof -
  have a: "map shallow (filter (\<lambda>e. hasClass ''aoO'' e \<and> notOurs e) (descendants (insertAfter r new dw)))
         = map shallow (filter (\<lambda>e. hasClass ''aoO'' e \<and> notOurs e) (descendants dw))"
  proof (rule filter_insertAfter)
    fix a b :: element assume "shallow a = shallow b"
    from preds_shallow(4,6) [OF this]
    show "(hasClass ''aoO'' a \<and> notOurs a) = (hasClass ''aoO'' b \<and> notOurs b)"
      by (simp add: notOurs_def)
  next
    show "\<forall>e \<in> set (subtree new). \<not> (hasClass ''aoO'' e \<and> notOurs e)"
      by (simp add: l b notOurs_def)
  qed
  have c: "map shallow (filter (\<lambda>e. ariaSendSelector e \<and> notOurs e) (descendants (insertAfter r new dw)))
         = map shallow (filter (\<lambda>e. ariaSendSelector e \<and> notOurs e) (descendants dw))"
  proof (rule filter_insertAfter)
    fix a b :: element assume "shallow a = shallow b"
    from preds_shallow(5,6) [OF this]
    show "(ariaSendSelector a \<and> notOurs a) = (ariaSendSelector b \<and> notOurs b)"
      by (simp add: notOurs_def)
  next
    show "\<forall>e \<in> set (subtree new). \<not> (ariaSendSelector e \<and> notOurs e)"
      by (simp add: l b notOurs_def)
  qed
  have f: "filter notOurs (filter P xs) = filter (\<lambda>e. P e \<and> notOurs e) xs"
    for P and xs :: "element list"
    by (induction xs) auto
  show ?thesis
    by (simp add: sendCandidates_def querySelectorAll_def f a c)
qed

lemma find_same_view:
  assumes cong: "\<And>a b. shallow a = shallow b \<Longrightarrow> P a = P b"
    and "map shallow xs = map shallow ys"
  shows "map_option shallow (find P xs) = map_option shallow (find P ys)"
  by (simp add: find_view [of P, OF cong] assms(2))

lemma collectRoots_insertAfter:
  assumes fresh: "\<forall>e \<in> set (subtree doc). ident e \<notin> ident ` set (subtree new)"
    and dw: "shallow dw' = shallow dw"
    and con: "\<And>k. k \<notin> ident ` set (subtree new) \<Longrightarrow> contains dw' k = contains dw k"
  shows "map shallow cs' = map shallow cs \<Longrightarrow>
         \<forall>a \<in> set cs. ident a \<notin> ident ` set (subtree new) \<Longrightarrow>
         map shallow res' = map shallow res \<Longrightarrow>
         map shallow (collectRoots (insertAfter r new doc) dw' cs' seen res')
           = map shallow (collectRoots doc dw cs seen res)"
proof (induction cs arbitrary: cs' seen res res')
  case Nil
  then show ?case by simp
next
  case (Cons a cs)
  from Cons.prems(1) obtain a' cs'' where cs': "cs' = a' # cs''"
    and a: "shallow a' = shallow a" and rest: "map shallow cs'' = map shallow cs"
    by (cases cs') auto
  from a have ida: "ident a' = ident a" by (simp add: shallow_def)
  from Cons.prems(2) have fa: "ident a \<notin> ident ` set (subtree new)"
    and frest: "\<forall>a \<in> set cs. ident a \<notin> ident ` set (subtree new)" by simp_all
  define root where "root = (case closest (pathTo (ident a) doc) (hasClass ''nH'') of
                      Some c \<Rightarrow> if contains dw (ident c) then c else dw
                    | None \<Rightarrow> dw)"
  define root' where "root' = (case closest (pathTo (ident a) (insertAfter r new doc)) (hasClass ''nH'') of
                      Some c \<Rightarrow> if contains dw' (ident c) then c else dw'
                    | None \<Rightarrow> dw')"
  have cl: "map_option shallow (closest (pathTo (ident a) (insertAfter r new doc)) (hasClass ''nH''))
            = map_option shallow (closest (pathTo (ident a) doc) (hasClass ''nH''))"
    unfolding closest_def
    by (rule find_same_view [OF preds_shallow(4) pathTo_insertAfter(1) [OF fa]])
  have rt: "shallow root' = shallow root"
  proof (cases "closest (pathTo (ident a) doc) (hasClass ''nH'')")
    case None
    with cl have "closest (pathTo (ident a) (insertAfter r new doc)) (hasClass ''nH'') = None"
      by simp
    with None dw show ?thesis by (simp add: root_def root'_def)
  next
    case (Some c)
    with cl obtain c' where c': "closest (pathTo (ident a) (insertAfter r new doc)) (hasClass ''nH'') = Some c'"
      and sc: "shallow c' = shallow c" by auto
    from Some have "c \<in> set (pathTo (ident a) doc)"
      by (auto simp: closest_def dest: find_SomeD)
    with pathTo_subset have "c \<in> set (subtree doc)" by blast
    with fresh have "ident c \<notin> ident ` set (subtree new)" by blast
    from con [OF this] have "contains dw' (ident c) = contains dw (ident c)" .
    moreover from sc have "ident c' = ident c" by (simp add: shallow_def)
    ultimately show ?thesis using Some c' sc dw by (simp add: root_def root'_def)
  qed
  then have idr: "ident root' = ident root" by (simp add: shallow_def)
  have skip: "map shallow (collectRoots (insertAfter r new doc) dw' cs'' seen res')
              = map shallow (collectRoots doc dw cs seen res)"
    by (rule Cons.IH [OF rest frest Cons.prems(3)])
  have add: "map shallow (collectRoots (insertAfter r new doc) dw' cs'' (ident root # seen) (res' @ [root']))
              = map shallow (collectRoots doc dw cs (ident root # seen) (res @ [root]))"
    by (rule Cons.IH [OF rest frest]) (simp add: Cons.prems(3) rt)
  from preds_shallow(6) [OF a]
  have "hasAttribute a' BTN_ATTR = hasAttribute a BTN_ATTR" .
  with skip add show ?case
    by (simp add: cs' ida Let_def root_def [symmetric] root'_def [symmetric] idr)
qed

lemma findComposeWindows_insertAfter:
  assumes b: "hasAttribute new BTN_ATTR" and l: "subtree new = [new]"
    and fd: "ident new \<notin> ident ` set (subtree doc)"
    and fw: "ident new \<notin> ident ` set (subtree dw)"
  shows "map shallow (findComposeWindows (insertAfter r new doc) (insertAfter r new dw))
         = map shallow (findComposeWindows doc dw)"
proof -
  have fresh: "\<forall>e \<in> set (subtree doc). ident e \<notin> ident ` set (subtree new)"
  proof
    fix e assume "e \<in> set (subtree doc)"
    then have "ident e \<in> ident ` set (subtree doc)" by (rule imageI)
    with fd have "ident e \<noteq> ident new" by metis
    then show "ident e \<notin> ident ` set (subtree new)" by (simp add: l)
  qed
  have cands: "\<forall>a \<in> set (filter notOurs (sendCandidates dw)). ident a \<notin> ident ` set (subtree new)"
  proof
    fix a assume "a \<in> set (filter notOurs (sendCandidates dw))"
    then have "a \<in> set (subtree dw)"
      by (auto simp: sendCandidates_def querySelectorAll_def subtree_def)
    then have "ident a \<in> ident ` set (subtree dw)" by (rule imageI)
    with fw have "ident a \<noteq> ident new" by metis
    then show "ident a \<notin> ident ` set (subtree new)" by (simp add: l)
  qed
  have "map shallow (collectRoots (insertAfter r new doc) (insertAfter r new dw)
                       (filter notOurs (sendCandidates (insertAfter r new dw))) [] [])
        = map shallow (collectRoots doc dw (filter notOurs (sendCandidates dw)) [] [])"
    by (rule collectRoots_insertAfter [OF fresh _ _ hostCandidates_insertAfter [OF b l] cands])
       (simp_all add: contains_insertAfter)
  then show ?thesis
    by (simp add: findComposeWindows_def collectRoots_filter [symmetric])
qed

lemma regions_after_injection:
  assumes "f \<notin> ident ` set (subtree doc)" and "f \<notin> ident ` set (subtree dw)"
  shows "map ident (findComposeWindows
           (insertAfter r (buildButton f sb) (setAttributeIn c PROCESSED_ATTR v doc))
           (insertAfter r (buildButton f sb) (setAttributeIn c PROCESSED_ATTR v dw)))
         = map ident (findComposeWindows doc dw)"
proof -
  let ?g = "setAttributeIn c PROCESSED_ATTR v"
  let ?b = "buildButton f sb"
  have b: "hasAttribute ?b BTN_ATTR" "subtree ?b = [?b]"
    by (simp_all add: buildButton_marks subtree_buildButton)
  have fd: "ident ?b \<notin> ident ` set (subtree (?g doc))"
    and fw: "ident ?b \<notin> ident ` set (subtree (?g dw))"
    using assms by (simp_all add: ident_buildButton subtree_setAttributeIn image_image)
  have "map fst (map shallow (findComposeWindows (insertAfter r ?b (?g doc)) (insertAfter r ?b (?g dw))))
        = map fst (map shallow (findComposeWindows (?g doc) (?g dw)))"
    by (simp only: findComposeWindows_insertAfter [OF b fd fw])
  then show ?thesis
    by (simp add: comp_def ident_shallow [symmetric] findComposeWindows_setAttributeIn)
qed

subsection \<open>Regions are marked once while the page keeps the marker\<close>

lemma markedIds_append [simp]: "markedIds (xs @ ys) = markedIds xs @ markedIds ys"
  by (induction xs rule: markedIds.induct) simp_all

lemma injections_append [simp]: "injections (xs @ ys) = injections xs @ injections ys"
  by (induction xs rule: injections.induct) simp_all

lemma markInv_frame:
  assumes "markInv s" and "document s' = document s" and "nextId s \<le> nextId s'"
    and "markView s' = markView s"
  shows "markInv s'"
proof -
  from assms(1) have "idsFresh s" by (simp add: markInv_def)
  from idsFresh_frame [OF this assms(2,3)] have "idsFresh s'" .
  moreover from assms have "\<forall>r \<in> set (markedIds (trace s')). r < nextId s'"
    by (auto simp: markInv_def markView_def)
  ultimately show ?thesis using assms by (simp add: markInv_def markView_def)
qed

lemma markView_emit:
  "markedIds es = [] \<Longrightarrow> injections es = [] \<Longrightarrow> markView (emit es s) = markView s"
  by (simp add: markView_def)

lemma markView_basic [simp]:
  "markView (setTimeout cb d s) = markView s"
  "markView (clearTimeout t s) = markView s"
  "markView (simulateClick el s) = markView s"
  "markView (observe oid ob s) = markView s"
  "markView (disconnect oid s) = markView s"
  "markView (toastFade t s) = markView s"
  "markView (toastRemove t s) = markView s"
  "markView (showToast m s) = markView s"
  "markView (onRemoved s) = markView s"
  by (simp_all add: markView_def simulateClick_trace showToast_trace toastFade_def
      toastRemove_def onRemoved_def split: option.splits)

lemma markView_watch [simp]: "markView (watchComposeForRemoval r s) = markView s"
  by (simp add: markView_def watchComposeForRemoval_def)

lemma markView_trigger [simp]: "markView (triggerSendAndArchive el sb s) = markView s"
  by (simp add: triggerSendAndArchive_def Let_def markView_emit split: option.splits)

lemma markView_removalCallback [simp]: "markView (removalCallback oid r s) = markView s"
  by (simp add: removalCallback_def markView_emit)

lemma markView_scheduleScan [simp]: "markView (scheduleScan d s) = markView s"
  by (simp add: scheduleScan_def Let_def markView_def split: option.splits)

lemma markView_archive [simp]: "markView (archiveCurrentConversation n s) = markView s"
  by (simp add: archiveCurrentConversation_def Let_def markView_emit split: option.splits)

lemma markedOk_shallow: "shallow a = shallow b \<Longrightarrow> markedOk m a = markedOk m b"
  using hasAttribute_shallow [of a b PROCESSED_ATTR] by (simp add: markedOk_def shallow_def)

lemma shallow_set_removeElement:
  "shallow ` set (subtree (removeElement i t)) \<subseteq> shallow ` set (subtree t)"
proof (induction t)
  case (Element j tg a x cs)
  have "shallow ` set (concat (map subtree (map (removeElement i) (filter (\<lambda>c. ident c \<noteq> i) cs))))
        \<subseteq> shallow ` set (concat (map subtree cs))"
  proof
    fix k
    assume "k \<in> shallow ` set (concat (map subtree (map (removeElement i)
                  (filter (\<lambda>c. ident c \<noteq> i) cs))))"
    then obtain c where c: "c \<in> set cs" and k: "k \<in> shallow ` set (subtree (removeElement i c))"
      by auto
    from Element [OF c] k have "k \<in> shallow ` set (subtree c)" by blast
    with c show "k \<in> shallow ` set (concat (map subtree cs))" by auto
  qed
  moreover have "shallow (Element j tg a x (map (removeElement i) (filter (\<lambda>c. ident c \<noteq> i) cs)))
                 = shallow (Element j tg a x cs)"
    by (simp add: shallow_def)
  ultimately show ?case by (auto simp: subtree_Element)
qed

lemma shallow_set_appendChild:
  "shallow ` set (subtree (appendChild new t))
     = shallow ` set (subtree t) \<union> shallow ` set (subtree new)"
  by (cases t) (auto simp: appendChild_def subtree_Element shallow_def)

lemma shallow_set_insertAfter:
  assumes "q \<in> shallow ` set (subtree (insertAfter r new t))"
  shows "q \<in> shallow ` set (subtree t) \<or> q \<in> shallow ` set (subtree new)"
proof (rule ccontr)
  assume "\<not> ?thesis"
  then have no: "q \<notin> shallow ` set (subtree t)" and nn: "q \<notin> shallow ` set (subtree new)"
    by auto
  from nn have "filter (\<lambda>p. p = q) (map shallow (subtree new)) = []"
    by (auto simp: filter_empty_conv)
  from insertAfter_filter(1) [OF this, of r t]
  have eq: "filter (\<lambda>p. p = q) (map shallow (subtree (insertAfter r new t)))
        = filter (\<lambda>p. p = q) (map shallow (subtree t))" .
  from no have "filter (\<lambda>p. p = q) (map shallow (subtree t)) = []"
    by (auto simp: filter_empty_conv)
  with eq have "filter (\<lambda>p. p = q) (map shallow (subtree (insertAfter r new t))) = []"
    by simp
  then have "q \<notin> shallow ` set (subtree (insertAfter r new t))"
    by (auto simp: filter_empty_conv)
  with assms show False by simp
qed

lemma all_markedOk_shallow:
  assumes "shallow ` set xs \<subseteq> shallow ` set ys" and "list_all (markedOk m) ys"
  shows "list_all (markedOk m) xs"
proof -
  have "markedOk m x" if "x \<in> set xs" for x
  proof -
    from that assms(1) obtain y where "y \<in> set ys" and "shallow x = shallow y" by blast
    with assms(2) markedOk_shallow [of x y m] show ?thesis by (simp add: list_all_iff)
  qed
  then show ?thesis by (simp add: list_all_iff)
qed

lemma markInv_toastRemove:
  assumes "markInv s"
  shows "markInv (toastRemove t s)"
proof -
  from assms have "idsFresh s" by (simp add: markInv_def)
  then have "idsFresh (toastRemove t s)" by (rule idsFresh_toastRemove)
  moreover have "list_all (markedOk (markedIds (trace s))) (subtree (removeElement t (document s)))"
    using assms by (auto intro: all_markedOk_shallow [OF shallow_set_removeElement] simp: markInv_def)
  ultimately show ?thesis using assms
    by (simp add: markInv_def toastRemove_def)
qed

lemma markInv_showToast:
  assumes inv: "markInv s"
  shows "markInv (showToast m s)"
proof -
  define d where "d = (case docQuerySelector (document s) (attrEquals ''id'' ''sab-toast'') of
                         Some existing \<Rightarrow> removeElement (ident existing) (document s)
                       | None \<Rightarrow> document s)"
  let ?toast = "Element (nextId s) ''div'' [(''id'', ''sab-toast''), (''role'', ''alert'')] m []"
  let ?mk = "markedIds (trace s)"
  have doc: "document (showToast m s) = appendChild ?toast d"
    and nxt: "nextId (showToast m s) = Suc (nextId s)"
    by (simp_all add: showToast_def Let_def d_def split: option.splits)
  from markView_basic(8) [of m s]
  have tr: "markedIds (trace (showToast m s)) = ?mk"
    "injections (trace (showToast m s)) = injections (trace s)"
    by (simp_all add: markView_def)
  from inv have fr: "idsFresh s" and lt: "\<forall>r \<in> set ?mk. r < nextId s"
    and ok: "list_all (markedOk ?mk) (subtree (document s))"
    by (simp_all add: markInv_def)
  have okd: "list_all (markedOk ?mk) (subtree d)"
  proof (cases "docQuerySelector (document s) (attrEquals ''id'' ''sab-toast'')")
    case None
    with ok show ?thesis by (simp add: d_def)
  next
    case (Some ex)
    from all_markedOk_shallow [OF shallow_set_removeElement ok] Some show ?thesis
      by (simp add: d_def)
  qed
  have "nextId s \<notin> set ?mk" using lt by auto
  then have okt: "list_all (markedOk ?mk) (subtree ?toast)"
    by (simp add: subtree_Element markedOk_def)
  have "shallow ` set (subtree (appendChild ?toast d)) \<subseteq> shallow ` set (subtree d @ subtree ?toast)"
    by (simp add: shallow_set_appendChild image_Un)
  from all_markedOk_shallow [OF this] okd okt
  have "list_all (markedOk ?mk) (subtree (appendChild ?toast d))" by simp
  moreover from idsFresh_showToast [OF fr] have "idsFresh (showToast m s)" .
  moreover from lt have "\<forall>r \<in> set ?mk. r < Suc (nextId s)" by auto
  ultimately show ?thesis using inv
    by (simp add: markInv_def doc nxt tr)
qed

lemma markInv_archive:
  assumes inv: "markInv s"
  shows "markInv (archiveCurrentConversation n s)"
proof -
  have e: "markInv (emit [Query FindArchive] s)"
    by (rule markInv_frame [OF inv]) (simp_all add: markView_emit)
  show ?thesis
  proof (cases "archiveBtn (document s)")
    case (Some b)
    have "markInv (simulateClick (ident b) (emit [Query FindArchive] s))"
      by (rule markInv_frame [OF inv]) (simp_all add: markView_emit)
    with Some show ?thesis by (simp add: archiveCurrentConversation_def Let_def)
  next
    case None
    have "markInv (setTimeout (ArchiveRetry (n - 1)) 300 (emit [Query FindArchive] s))"
      by (rule markInv_frame [OF inv]) (simp_all add: markView_emit)
    with None markInv_showToast [OF e] show ?thesis
      by (simp add: archiveCurrentConversation_def Let_def)
  qed
qed

lemma markInv_injectButton:
  assumes inv: "markInv s" and el: "el \<in> set (subtree (document s))"
  shows "markInv (injectButton el s)"
proof (cases "\<not> hasAttribute el PROCESSED_ATTR \<and> (\<exists>sb. findSendButton el = Some sb)")
  case False
  have "markInv (emit [Query (FindSendButton (ident el))] s)"
    by (rule markInv_frame [OF inv]) (simp_all add: markView_emit)
  with False inv show ?thesis
    by (auto simp: injectButton_def Let_def split: option.splits)
next
  case True
  then obtain sb where unm: "\<not> hasAttribute el PROCESSED_ATTR" and sb: "findSendButton el = Some sb"
    by blast
  let ?mk = "markedIds (trace s)"
  let ?d1 = "setAttributeIn (ident el) PROCESSED_ATTR ''true'' (document s)"
  let ?btn = "buildButton (nextId s) sb"
  let ?s' = "injectButton el s"
  note eq = injectButton_inject [OF unm sb, of s]
  from inv have fr: "idsFresh s" and lt: "\<forall>r \<in> set ?mk. r < nextId s"
    and ok: "list_all (markedOk ?mk) (subtree (document s))"
    and di: "distinct ?mk" and ij: "map fst (injections (trace s)) = ?mk"
    by (simp_all add: markInv_def)
  have mk': "markedIds (trace ?s') = ?mk @ [ident el]"
    and ij': "injections (trace ?s') = injections (trace s) @ [(ident el, nextId s)]"
    by (simp_all add: eq)
  from el fr have ltel: "ident el < nextId s" by (simp add: idsFresh_def)
  from el ok unm have new: "ident el \<notin> set ?mk"
    by (auto simp: list_all_iff markedOk_def)
  have ok1: "list_all (markedOk (?mk @ [ident el])) (subtree ?d1)"
  proof -
    have "markedOk (?mk @ [ident el]) (setAttributeIn (ident el) PROCESSED_ATTR ''true'' e)"
      if "e \<in> set (subtree (document s))" for e
      using that ok by (auto simp: markedOk_def hasAttribute_update list_all_iff)
    then show ?thesis by (simp add: subtree_setAttributeIn list_all_iff)
  qed
  have "nextId s \<notin> set (?mk @ [ident el])" using lt ltel by auto
  then have okb: "list_all (markedOk (?mk @ [ident el])) (subtree ?btn)"
    by (simp add: subtree_buildButton markedOk_def ident_buildButton)
  have "shallow ` set (subtree (insertAfter (ident sb) ?btn ?d1))
        \<subseteq> shallow ` set (subtree ?d1 @ subtree ?btn)"
  proof
    fix q assume "q \<in> shallow ` set (subtree (insertAfter (ident sb) ?btn ?d1))"
    from shallow_set_insertAfter [OF this]
    show "q \<in> shallow ` set (subtree ?d1 @ subtree ?btn)" by (simp add: image_Un)
  qed
  from all_markedOk_shallow [OF this] ok1 okb
  have ok': "list_all (markedOk (?mk @ [ident el])) (subtree (insertAfter (ident sb) ?btn ?d1))"
    by simp
  have doc': "document ?s' = insertAfter (ident sb) ?btn ?d1" and nx': "nextId ?s' = Suc (nextId s)"
    by (simp_all add: eq)
  have "idsFresh ?s'" by (rule idsFresh_injectButton [OF fr])
  moreover have "\<forall>r \<in> set (?mk @ [ident el]). r < Suc (nextId s)"
    using lt ltel by auto
  moreover have "distinct (?mk @ [ident el])" using di new by simp
  moreover have "map fst (injections (trace s) @ [(ident el, nextId s)]) = ?mk @ [ident el]"
    using ij by simp
  ultimately show ?thesis using ok'
    by (simp only: markInv_def mk' ij' doc' nx')
qed

lemma markInv_tryInject:
  assumes inv: "markInv s"
  shows "markInv (tryInjectWithRetry r n s)"
proof (cases "getElement (document s) r")
  case None
  with inv show ?thesis by (simp add: tryInjectWithRetry_def)
next
  case (Some el)
  then have el: "el \<in> set (subtree (document s))"
    by (auto simp: getElement_def dest: find_SomeD)
  let ?s1 = "emit [Query (FindSendButton r)] s"
  have e: "markInv ?s1" by (rule markInv_frame [OF inv]) (simp_all add: markView_emit)
  have t: "markInv (setTimeout (InjectRetry r (n - 1)) 300 ?s1)"
    by (rule markInv_frame [OF inv]) (simp_all add: markView_emit)
  have "markInv (injectButton el ?s1)"
    by (rule markInv_injectButton [OF e]) (simp add: el)
  with inv e t Some show ?thesis
    by (simp add: tryInjectWithRetry_def Let_def split: option.splits)
qed

lemma markInv_scanDw: "markInv s \<Longrightarrow> markInv (scanDw s dw)"
proof (cases "getElement (document s) dw")
  case None
  assume "markInv s" with None show ?thesis by (simp add: scanDw_def)
next
  case (Some dwEl)
  assume inv: "markInv s"
  have "markInv (foldl (\<lambda>s' composeEl. tryInjectWithRetry composeEl 6 s') s
                  (map ident (findComposeWindows (document s) dwEl)))"
    by (rule foldl_preserves [where P = markInv]) (simp_all add: markInv_tryInject inv)
  with Some show ?thesis by (simp add: scanDw_def)
qed

lemma markInv_scanAll:
  assumes "markInv s"
  shows "markInv (scanAll s)"
proof -
  have "markInv (s\<lparr>scanTimer := None\<rparr>)"
    by (rule markInv_frame [OF assms]) (simp_all add: markView_def)
  then have "markInv (foldl scanDw (s\<lparr>scanTimer := None\<rparr>)
               (map ident (docQuerySelectorAll (document s) (hasClass ''dw''))))"
    by (rule foldl_preserves [where P = markInv, rotated]) (rule markInv_scanDw)
  then show ?thesis by (simp add: scanAll_def Let_def)
qed

lemma markInv_trigger: "markInv s \<Longrightarrow> markInv (triggerSendAndArchive el sb s)"
  by (erule markInv_frame) simp_all

lemma markInv_invokeClick: "markInv s \<Longrightarrow> markInv (snd (invokeClick h e s))"
  by (cases h)
     (simp_all add: invokeClick_def buttonClickHandler_def markInv_trigger split: option.splits)

lemma markInv_dispatchClick: "markInv s \<Longrightarrow> markInv (snd (dispatchClick t s))"
  unfolding dispatchClick_def
  by (rule runHandlers_preserves [where P = markInv]) (simp_all add: markInv_invokeClick)

lemma markInv_invokeKeydown:
  assumes inv: "markInv s"
  shows "markInv (snd (invokeKeydown h e s))"
proof -
  have "markInv (emit [Click b] s)" for b
    by (rule markInv_frame [OF inv]) (simp_all add: markView_emit)
  with inv show ?thesis
    by (cases h)
       (simp_all add: invokeKeydown_def chordHandler_def buttonKeydownHandler_def
          markInv_trigger markInv_dispatchClick split: option.splits)
qed

lemma markInv_dispatchKeydown: "markInv s \<Longrightarrow> markInv (snd (dispatchKeydown t e s))"
  unfolding dispatchKeydown_def
  by (rule runHandlers_preserves [where P = markInv]) (simp_all add: markInv_invokeKeydown)

lemma markInv_runCallback:
  assumes inv: "markInv s"
  shows "markInv (runCallback cb s)"
proof (cases cb)
  case (SendClick b)
  have "markInv (emit [Click b] s)" by (rule markInv_frame [OF inv]) (simp_all add: markView_emit)
  with SendClick show ?thesis by (simp add: runCallback_def)
next
  case (ToastFade t)
  have "markInv (toastFade t s)" by (rule markInv_frame [OF inv]) simp_all
  with ToastFade show ?thesis by (simp add: runCallback_def)
next
  case StartObserver
  have "markInv (observe 0 MainObserver s)" by (rule markInv_frame [OF inv]) simp_all
  with StartObserver show ?thesis by (simp add: runCallback_def)
next
  case InitialScan
  have "markInv (scheduleScan 0 s)" by (rule markInv_frame [OF inv]) simp_all
  with InitialScan show ?thesis by (simp add: runCallback_def)
qed (simp_all add: runCallback_def inv markInv_archive markInv_tryInject markInv_scanAll
      markInv_toastRemove)

lemma markInv_step:
  assumes inv: "markInv s" and keeps: "hostKeeps s ev"
  shows "markInv (step s ev)"
proof (cases ev)
  case (Host d)
  from keeps Host have "list_all (markedOk (markedIds (trace s))) (subtree d)"
    by (simp add: hostKeeps_def)
  moreover have "idsFresh (s\<lparr>document := d, nextId := max (nextId s) (Suc (maxIdent d))\<rparr>)"
    by (rule idsFresh_host)
  moreover from inv have "\<forall>r \<in> set (markedIds (trace s)). r < max (nextId s) (Suc (maxIdent d))"
    by (auto simp: markInv_def)
  ultimately show ?thesis using inv Host by (simp add: step_def markInv_def)
next
  case (Fire t)
  show ?thesis
  proof (cases "find (\<lambda>e. fst e = t) (timers s)")
    case None
    then show ?thesis using Fire inv by (simp add: step_def)
  next
    case (Some e)
    have "markInv (s\<lparr>timers := filter (\<lambda>e. fst e \<noteq> t) (timers s)\<rparr>)"
      by (rule markInv_frame [OF inv]) (simp_all add: markView_def)
    from markInv_runCallback [OF this] show ?thesis using Fire Some by (simp add: step_def)
  qed
next
  case (Idle t)
  show ?thesis
  proof (cases "find (\<lambda>e. fst e = t) (idleCallbacks s)")
    case None
    then show ?thesis using Idle inv by (simp add: step_def)
  next
    case (Some e)
    have "markInv (s\<lparr>idleCallbacks := filter (\<lambda>e. fst e \<noteq> t) (idleCallbacks s)\<rparr>)"
      by (rule markInv_frame [OF inv]) (simp_all add: markView_def)
    from markInv_runCallback [OF this] show ?thesis using Idle Some by (simp add: step_def)
  qed
next
  case (Notify oid m)
  have a: "markInv (mainObserverCallback m s)"
    by (rule markInv_frame [OF inv]) (simp_all add: mainObserverCallback_def)
  have b: "\<And>r. markInv (removalCallback oid r s)"
    by (rule markInv_frame [OF inv]) simp_all
  from a b inv Notify show ?thesis
    by (simp add: step_def split: option.splits observer.splits)
next
  case (KeyDown t e)
  then show ?thesis using inv by (simp add: step_def markInv_dispatchKeydown)
next
  case (MouseClick t)
  then show ?thesis using inv by (simp add: step_def markInv_dispatchClick)
qed

lemma markInv_run: "markInv s \<Longrightarrow> keepsMarkers s evs \<Longrightarrow> markInv (run s evs)"
proof (induction evs arbitrary: s)
  case Nil
  then show ?case by (simp add: run_def)
next
  case (Cons ev evs)
  from Cons.prems have "markInv (step s ev)" and "keepsMarkers (step s ev) evs"
    by (simp_all add: markInv_step)
  from Cons.IH [OF this] show ?case by (simp add: run_def)
qed

lemma markInv_init: "markInv (init idle doc)"
proof -
  have "markedIds (trace (init idle doc)) = []" "injections (trace (init idle doc)) = []"
    by (simp_all add: init_def runWhenIdle_def)
  with idsFresh_init [of idle doc] show ?thesis
    by (simp add: markInv_def markedOk_def list_all_iff)
qed

lemma count_markedIds:
  "count_list es (SetAttribute r PROCESSED_ATTR v) \<le> count_list (markedIds es) r"
  by (induction es rule: markedIds.induct) auto

lemma length_controlsFor:
  "length (controlsFor r es) = count_list (map fst (injections es)) r"
proof -
  have "length (filter (\<lambda>p. fst p = r) xs) = count_list (map fst xs) r"
    for xs :: "(nat \<times> nat) list"
    by (induction xs) auto
  then show ?thesis by (simp add: controlsFor_def)
qed

lemma injected_once:
  assumes "keepsMarkers (init idle doc) evs"
  shows "length (controlsFor r (trace (run (init idle doc) evs))) \<le> 1"
    and "count_list (trace (run (init idle doc) evs)) (SetAttribute r PROCESSED_ATTR v) \<le> 1"
proof -
  let ?tr = "trace (run (init idle doc) evs)"
  from markInv_run [OF markInv_init assms]
  have d: "distinct (markedIds ?tr)" and m: "map fst (injections ?tr) = markedIds ?tr"
    by (simp_all add: markInv_def)
  from distinct_count_le [OF d] have c: "count_list (markedIds ?tr) r \<le> 1" by simp
  with m show "length (controlsFor r ?tr) \<le> 1" by (simp add: length_controlsFor)
  from count_markedIds [of ?tr r v] c
  show "count_list ?tr (SetAttribute r PROCESSED_ATTR v) \<le> 1" by simp
qed

lemma insertAfter_absent:
  "r \<notin> ident ` set (descendants t) \<Longrightarrow> insertAfter r n t = t"
  "r \<notin> ident ` set (concat (map subtree cs)) \<Longrightarrow> insertAfterList r n cs = cs"
proof (induction r n t and r n cs rule: insertAfter_insertAfterList.induct)
  case (1 ref new i t a x cs)
  then show ?case by (simp add: subtree_def [abs_def])
next
  case (2 ref new)
  then show ?case by simp
next
  case (3 ref new c cs)
  from 3(3) have "ident c \<noteq> ref" and "ref \<notin> ident ` set (descendants c)"
    and "ref \<notin> ident ` set (concat (map subtree cs))"
    by (auto simp: subtree_def)
  with 3(1,2) show ?case by simp
qed

lemma insertAfter_adds:
  "distinct (map ident (subtree t)) \<Longrightarrow> r \<in> ident ` set (descendants t) \<Longrightarrow>
     length (filter Q (map shallow (subtree (insertAfter r n t))))
       = length (filter Q (map shallow (subtree t))) + length (filter Q (map shallow (subtree n)))"
  "distinct (map ident (concat (map subtree cs))) \<Longrightarrow>
   r \<in> ident ` set (concat (map subtree cs)) \<Longrightarrow>
     length (filter Q (map shallow (concat (map subtree (insertAfterList r n cs)))))
       = length (filter Q (map shallow (concat (map subtree cs))))
         + length (filter Q (map shallow (subtree n)))"
proof (induction r n t and r n cs rule: insertAfter_insertAfterList.induct)
  case (1 ref new i t a x cs)
  from 1(2) have d: "distinct (map ident (concat (map subtree cs)))"
    by (simp add: subtree_Element)
  from 1(3) have m: "ref \<in> ident ` set (concat (map subtree cs))"
    by (simp add: subtree_def [abs_def])
  from 1(1) [OF d m] show ?case by (simp add: subtree_Element shallow_def)
next
  case (2 ref new)
  then show ?case by simp
next
  case (3 ref new c cs)
  show ?case
  proof (cases "ident c = ref")
    case True
    then show ?thesis by simp
  next
    case False
    from 3(3) have dc: "distinct (map ident (subtree c))"
      and dcs: "distinct (map ident (concat (map subtree cs)))"
      and dj: "ident ` set (subtree c) \<inter> ident ` set (concat (map subtree cs)) = {}"
      by simp_all
    show ?thesis
    proof (cases "ref \<in> ident ` set (subtree c)")
      case True
      with False have "ref \<in> ident ` set (descendants c)" by (auto simp: subtree_def)
      from 3(1) [OF False dc this]
      have a: "length (filter Q (map shallow (subtree (insertAfter ref new c))))
               = length (filter Q (map shallow (subtree c)))
                 + length (filter Q (map shallow (subtree new)))" .
      from True dj have "ref \<notin> ident ` set (concat (map subtree cs))" by blast
      then have "insertAfterList ref new cs = cs" by (rule insertAfter_absent(2))
      with a False show ?thesis by simp
    next
      case n: False
      then have "ref \<notin> ident ` set (descendants c)" by (auto simp: subtree_def)
      then have c: "insertAfter ref new c = c" by (rule insertAfter_absent(1))
      from n 3(4) have "ref \<in> ident ` set (concat (map subtree cs))" by auto
      from 3(2) [OF False dcs this] c False show ?thesis by simp
    qed
  qed
qed

lemma descendants_subtree:
  "e \<in> set (subtree t) \<Longrightarrow> set (descendants e) \<subseteq> set (descendants t)"
proof (induction t)
  case (Element i tg a x cs)
  show ?case
  proof (cases "e = Element i tg a x cs")
    case True
    then show ?thesis by simp
  next
    case False
    with Element.prems obtain c where c: "c \<in> set cs" and e: "e \<in> set (subtree c)"
      by (auto simp: subtree_Element)
    from Element.IH [OF c e] have "set (descendants e) \<subseteq> set (descendants c)" .
    also have "\<dots> \<subseteq> set (subtree c)" by (auto simp: subtree_def)
    also from c have "\<dots> \<subseteq> set (descendants (Element i tg a x cs))"
      by (auto simp: subtree_def [abs_def])
    finally show ?thesis .
  qed
qed

lemma length_filter_shallow:
  assumes "\<And>a b. shallow a = shallow b \<Longrightarrow> P a = P b"
  shows "length (filter P xs) = length (filter (\<lambda>p. \<exists>e. shallow e = p \<and> P e) (map shallow xs))"
proof -
  have "length (filter P xs) = length (map shallow (filter P xs))" by simp
  also have "\<dots> = length (filter (\<lambda>p. \<exists>e. shallow e = p \<and> P e) (map shallow xs))"
    by (simp only: filter_view [of P, OF assms])
  finally show ?thesis .
qed

lemma injectButton_adds_one:
  assumes d: "distinct (map ident (subtree (document s)))"
    and el: "composeEl \<in> set (subtree (document s))"
    and unm: "\<not> hasAttribute composeEl PROCESSED_ATTR"
    and sb: "findSendButton composeEl = Some sendBtn"
  shows "length (syntheticControls (document (injectButton composeEl s)))
         = Suc (length (syntheticControls (document s)))"
proof -
  let ?P = "\<lambda>e. hasAttribute e BTN_ATTR"
  let ?Q = "\<lambda>p. \<exists>e. shallow e = p \<and> ?P e"
  let ?d1 = "setAttributeIn (ident composeEl) PROCESSED_ATTR ''true'' (document s)"
  let ?btn = "buildButton (nextId s) sendBtn"
  have cong: "\<And>a b. shallow a = shallow b \<Longrightarrow> ?P a = ?P b"
    by (rule hasAttribute_shallow)
  from findSendButton_SomeD [OF sb] have "sendBtn \<in> set (descendants composeEl)" by simp
  with descendants_subtree [OF el] have "sendBtn \<in> set (descendants (document s))" by blast
  then have "ident sendBtn \<in> ident ` set (descendants (document s))" by (rule imageI)
  then have r: "ident sendBtn \<in> ident ` set (descendants ?d1)"
    by (simp add: descendants_setAttributeIn image_image)
  have d1: "distinct (map ident (subtree ?d1))"
    using d by (simp add: subtree_setAttributeIn comp_def)
  have b: "length (filter ?P (subtree ?btn)) = 1"
    by (simp add: subtree_buildButton buildButton_marks)
  have m: "length (filter ?P (subtree ?d1)) = length (filter ?P (subtree (document s)))"
    by (simp add: subtree_setAttributeIn filter_map comp_def preds_setAttributeIn)
  have "length (filter ?P (subtree (insertAfter (ident sendBtn) ?btn ?d1)))
        = length (filter ?P (subtree ?d1)) + length (filter ?P (subtree ?btn))"
    by (simp only: length_filter_shallow [of ?P, OF cong] insertAfter_adds(1) [OF d1 r])
  with b m show ?thesis
    by (simp add: syntheticControls_def docQuerySelectorAll_def injectButton_inject [OF unm sb])
qed

subsection \<open>The native combined control is preferred\<close>

text \<open>
  C3. When \<open>triggerSendAndArchive\<close> finds a native combined control in the region, the
  state it returns differs from the one it was given by four trace entries only: the
  lookup and the three events dispatched on that control. No timer is set, so the plain
  Send button is not clicked and no archive sequence is started, and no observer is
  registered.
\<close>

theorem native_control_only:
  assumes "findNativeSendAndArchiveButton composeEl = Some nativeBtn"
  shows "triggerSendAndArchive composeEl sendBtn s =
           s\<lparr>trace := trace s @
              [Query (FindNative (ident composeEl)),
               DispatchEvent (ident nativeBtn) ''mousedown'',
               DispatchEvent (ident nativeBtn) ''mouseup'',
               DispatchEvent (ident nativeBtn) ''click'']\<rparr>
         \<and> timers (triggerSendAndArchive composeEl sendBtn s) = timers s
         \<and> observers (triggerSendAndArchive composeEl sendBtn s) = observers s
         \<and> Click sendBtn \<notin> set (drop (length (trace s))
                                  (trace (triggerSendAndArchive composeEl sendBtn s)))"
  by (simp add: trigger_native [OF assms])

theorem native_control_only_witness:
  "findNativeSendAndArchiveButton exNativeRegion = Some exNative
   \<and> triggerSendAndArchive exNativeRegion 3 exState =
       exState\<lparr>trace := trace exState @
          [Query (FindNative (ident exNativeRegion)),
           DispatchEvent (ident exNative) ''mousedown'',
           DispatchEvent (ident exNative) ''mouseup'',
           DispatchEvent (ident exNative) ''click'']\<rparr>"
proof -
  have h: "findNativeSendAndArchiveButton exNativeRegion = Some exNative"
    by code_simp
  from native_control_only [OF h, of 3 exState] h show ?thesis
    by blast
qed

subsection \<open>How controls are activated\<close>

text \<open>
  C5, as the claim states it, fails for the plain Send button. On the example compose
  window, which has no native combined control, the sequencer sets a zero-delay timer
  whose callback calls \<open>sendBtn.click()\<close>: the finished trace holds one \<open>Click\<close> on
  the Send button and no \<open>mousedown\<close> or \<open>mouseup\<close> dispatched on it.
\<close>

theorem plain_send_is_bare_click:
  "findNativeSendAndArchiveButton exRegion = None
   \<and> trace (run (triggerSendAndArchive exRegion 3 exState) [Fire 1]) =
       [Query (FindNative 2), Observe 1 (RemovalObserver 2),
        SetTimeout 1 (SendClick 3) 0, Click 3]
   \<and> DispatchEvent 3 ''mousedown'' \<notin>
       set (trace (run (triggerSendAndArchive exRegion 3 exState) [Fire 1]))"
  by code_simp

text \<open>
  C5, amended. The native combined control and the archive control are activated by
  \<open>simulateClick\<close>, which dispatches \<open>mousedown\<close>, \<open>mouseup\<close>, \<open>click\<close> on the
  element in that order. On the fallback path the plain Send button is activated
  from a zero-delay timer by the element's own \<open>click()\<close>.
\<close>

theorem sequencer_activations:
  "(findNativeSendAndArchiveButton composeEl = Some nativeBtn \<longrightarrow>
      trace (triggerSendAndArchive composeEl sendBtn s) =
        trace s @ [Query (FindNative (ident composeEl)),
                   DispatchEvent (ident nativeBtn) ''mousedown'',
                   DispatchEvent (ident nativeBtn) ''mouseup'',
                   DispatchEvent (ident nativeBtn) ''click''])
   \<and> (archiveBtn (document s) = Some b \<longrightarrow>
      trace (archiveCurrentConversation n s) =
        trace s @ [Query FindArchive,
                   DispatchEvent (ident b) ''mousedown'',
                   DispatchEvent (ident b) ''mouseup'',
                   DispatchEvent (ident b) ''click''])
   \<and> (findNativeSendAndArchiveButton composeEl = None \<longrightarrow>
      trace (triggerSendAndArchive composeEl sendBtn s) =
        trace s @ [Query (FindNative (ident composeEl)),
                   Observe (nextObserver s) (RemovalObserver (ident composeEl)),
                   SetTimeout (nextTimer s) (SendClick sendBtn) 0]
      \<and> timers (triggerSendAndArchive composeEl sendBtn s) =
          timers s @ [(nextTimer s, 0, SendClick sendBtn)])
   \<and> runCallback (SendClick sendBtn) s = s\<lparr>trace := trace s @ [Click sendBtn]\<rparr>"
  by (simp add: trigger_native trigger_fallback archive_found runCallback_def emit_def)

theorem sequencer_activations_witness:
  "findNativeSendAndArchiveButton exNativeRegion = Some exNative
   \<and> archiveBtn (document (exState\<lparr>document := Element 0 ''body'' [] []
         [Element 9 ''div'' [(''data-tooltip'', ''Archive'')] [] []]\<rparr>))
       = Some (Element 9 ''div'' [(''data-tooltip'', ''Archive'')] [] [])
   \<and> findNativeSendAndArchiveButton exRegion = None
   \<and> trace (triggerSendAndArchive exNativeRegion 3 exState) =
        trace exState @ [Query (FindNative (ident exNativeRegion)),
                   DispatchEvent (ident exNative) ''mousedown'',
                   DispatchEvent (ident exNative) ''mouseup'',
                   DispatchEvent (ident exNative) ''click'']
   \<and> trace (triggerSendAndArchive exRegion 3 exState) =
        trace exState @ [Query (FindNative (ident exRegion)),
                   Observe (nextObserver exState) (RemovalObserver (ident exRegion)),
                   SetTimeout (nextTimer exState) (SendClick 3) 0]"
proof -
  have h1: "findNativeSendAndArchiveButton exNativeRegion = Some exNative"
    by code_simp
  have h2: "archiveBtn (document (exState\<lparr>document := Element 0 ''body'' [] []
         [Element 9 ''div'' [(''data-tooltip'', ''Archive'')] [] []]\<rparr>))
       = Some (Element 9 ''div'' [(''data-tooltip'', ''Archive'')] [] [])"
    by code_simp
  have h3: "findNativeSendAndArchiveButton exRegion = None"
    by code_simp
  from sequencer_activations [of exNativeRegion exNative 3 exState] h1
  have a: "trace (triggerSendAndArchive exNativeRegion 3 exState) =
        trace exState @ [Query (FindNative (ident exNativeRegion)),
                   DispatchEvent (ident exNative) ''mousedown'',
                   DispatchEvent (ident exNative) ''mouseup'',
                   DispatchEvent (ident exNative) ''click'']"
    by blast
  from sequencer_activations [of exRegion _ 3 exState] h3
  have b: "trace (triggerSendAndArchive exRegion 3 exState) =
        trace exState @ [Query (FindNative (ident exRegion)),
                   Observe (nextObserver exState) (RemovalObserver (ident exRegion)),
                   SetTimeout (nextTimer exState) (SendClick 3) 0]"
    by blast
  from h1 h2 h3 a b show ?thesis by blast
qed

subsection \<open>The keyboard shortcut\<close>

text \<open>
  C8, as the claim states it, fails: the listener reads \<open>key\<close>, \<open>ctrlKey\<close> and
  \<open>shiftKey\<close> only. Ctrl+Shift+Alt+Enter is not the Ctrl+Shift+Enter chord, yet the
  listener suppresses it and runs the sequencer.
\<close>

theorem chord_with_alt_is_intercepted:
  "altKey exChordAlt
   \<and> fst (chordHandler exRegion 3 exChordAlt exState) \<noteq> exChordAlt
   \<and> defaultPrevented (fst (chordHandler exRegion 3 exChordAlt exState))
   \<and> immediateStopped (fst (chordHandler exRegion 3 exChordAlt exState))
   \<and> snd (chordHandler exRegion 3 exChordAlt exState) =
       triggerSendAndArchive exRegion 3 exState
   \<and> trace (snd (chordHandler exRegion 3 exChordAlt exState)) \<noteq> trace exState"
  by code_simp

text \<open>
  C8, amended. \<open>injectButton\<close> registers the listener on the region for \<open>keydown\<close> in
  the capture phase. For a key event with key \<open>Enter\<close> and both Ctrl and Shift held,
  whatever the other modifiers, it prevents the default action, stops propagation and
  runs the sequencer; every other key event, Ctrl+Enter without Shift among them, it
  returns unchanged together with an unchanged state.
\<close>

theorem chord_handler_gate:
  "(\<not> hasAttribute composeEl PROCESSED_ATTR \<and> findSendButton composeEl = Some sendEl \<longrightarrow>
      (ident composeEl, ''keydown'', True, ChordHandler (ident composeEl) (ident sendEl))
        \<in> set (listeners (injectButton composeEl s)))
   \<and> (key e = ''Enter'' \<and> ctrlKey e \<and> shiftKey e \<longrightarrow>
      chordHandler composeEl sendBtn e s =
        (e\<lparr>defaultPrevented := cancelable e \<or> defaultPrevented e, immediateStopped := True\<rparr>,
         triggerSendAndArchive composeEl sendBtn s))
   \<and> (\<not> (key e = ''Enter'' \<and> ctrlKey e \<and> shiftKey e) \<longrightarrow>
      chordHandler composeEl sendBtn e s = (e, s))
   \<and> (key e = ''Enter'' \<and> ctrlKey e \<and> \<not> shiftKey e \<longrightarrow>
      chordHandler composeEl sendBtn e s = (e, s))"
  by (simp add: chordHandler_def preventDefault_def stopImmediatePropagation_def
      injectButton_def Let_def insertAdjacentAfter_def addEventListener_def
      setAttribute_def emit_def)

theorem chord_handler_gate_witness:
  "(ident exRegion, ''keydown'', True, ChordHandler (ident exRegion) (ident exSend))
        \<in> set (listeners (injectButton exRegion exState))
   \<and> chordHandler exRegion 3 exChord exState =
        (exChord\<lparr>defaultPrevented := cancelable exChord \<or> defaultPrevented exChord,
                 immediateStopped := True\<rparr>,
         triggerSendAndArchive exRegion 3 exState)
   \<and> chordHandler exRegion 3 exCtrlEnter exState = (exCtrlEnter, exState)"
proof -
  have h1: "\<not> hasAttribute exRegion PROCESSED_ATTR \<and> findSendButton exRegion = Some exSend"
    by code_simp
  have h2: "key exChord = ''Enter'' \<and> ctrlKey exChord \<and> shiftKey exChord"
    by (simp add: exChord_def)
  have h3: "key exCtrlEnter = ''Enter'' \<and> ctrlKey exCtrlEnter \<and> \<not> shiftKey exCtrlEnter"
    by (simp add: exCtrlEnter_def exChord_def)
  from chord_handler_gate [of exRegion exSend exState exChord 3] h1 h2
  have a: "(ident exRegion, ''keydown'', True, ChordHandler (ident exRegion) (ident exSend))
        \<in> set (listeners (injectButton exRegion exState))
     \<and> chordHandler exRegion 3 exChord exState =
        (exChord\<lparr>defaultPrevented := cancelable exChord \<or> defaultPrevented exChord,
                 immediateStopped := True\<rparr>,
         triggerSendAndArchive exRegion 3 exState)"
    by blast
  from chord_handler_gate [of exRegion exSend exState exCtrlEnter 3] h3
  have b: "chordHandler exRegion 3 exCtrlEnter exState = (exCtrlEnter, exState)"
    by blast
  from a b show ?thesis by blast
qed

subsection \<open>The send-control finder\<close>

text \<open>
  C4, as the claim states it, fails in its last clause. A marker-class candidate is
  judged on its tooltip alone: the control below has tooltip \<open>Send\<close> and a label whose
  lowercased text begins with \<open>send &\<close>, and \<open>findSendButton\<close> returns it.
\<close>

theorem combined_label_is_returned:
  "findSendButton exMixedRegion = Some exMixed
   \<and> startsWith (toLowerCase (getAttributeOr exMixed ''aria-label'')) ''send &''"
  by code_simp

text \<open>
  C4, amended. \<open>findSendButton\<close> returns the first qualifying candidate of the list that
  puts the marker-class matches, judged on their tooltip, before the accessible-label
  matches, judged on their label, and none when no candidate qualifies. A returned
  element is a descendant of the region without the synthetic marker attribute, and the
  text it was judged on equals \<open>send\<close> or starts with \<open>send\<close> and a space, and does
  not start with \<open>send &\<close>.
\<close>

theorem find_send_button_first_qualifying:
  "findSendButton region = specFindSendControl region
   \<and> (\<forall>el. findSendButton region = Some el \<longrightarrow>
         \<not> hasAttribute el BTN_ATTR \<and> el \<in> set (descendants region) \<and>
         ((hasClass ''aoO'' el
             \<and> acceptsSend (toLowerCase (getAttributeOr el ''data-tooltip''))
             \<and> \<not> startsWith (toLowerCase (getAttributeOr el ''data-tooltip'')) ''send &'')
          \<or> (ariaSendSelector el
             \<and> acceptsSend (toLowerCase (getAttributeOr el ''aria-label''))
             \<and> \<not> startsWith (toLowerCase (getAttributeOr el ''aria-label'')) ''send &'')))
   \<and> (findSendButton region = None \<longleftrightarrow>
         (\<forall>c \<in> set (specSendCandidates region). \<not> specQualifies c))"
proof (intro conjI allI impI)
  show "findSendButton region = specFindSendControl region"
    by (rule findSendButton_spec)
next
  fix el assume r: "findSendButton region = Some el"
  from findSendButton_SomeD [OF r] show "\<not> hasAttribute el BTN_ATTR" by blast
  from findSendButton_SomeD [OF r] show "el \<in> set (descendants region)" by blast
  from findSendButton_SomeD [OF r] acceptsSend_not_amp
  show "(hasClass ''aoO'' el
             \<and> acceptsSend (toLowerCase (getAttributeOr el ''data-tooltip''))
             \<and> \<not> startsWith (toLowerCase (getAttributeOr el ''data-tooltip'')) ''send &'')
          \<or> (ariaSendSelector el
             \<and> acceptsSend (toLowerCase (getAttributeOr el ''aria-label''))
             \<and> \<not> startsWith (toLowerCase (getAttributeOr el ''aria-label'')) ''send &'')"
    by blast
next
  show "findSendButton region = None \<longleftrightarrow>
         (\<forall>c \<in> set (specSendCandidates region). \<not> specQualifies c)"
    by (auto simp: findSendButton_spec specFindSendControl_def find_None_iff)
qed

theorem find_send_button_first_qualifying_witness:
  "findSendButton exRegion = Some exSend
   \<and> \<not> hasAttribute exSend BTN_ATTR \<and> exSend \<in> set (descendants exRegion)
   \<and> findSendButton exCombinedRegion = None
   \<and> (exCombined, ''Send & Archive'') \<in> set (specSendCandidates exCombinedRegion)
   \<and> \<not> specQualifies (exCombined, ''Send & Archive'')"
proof -
  have h: "findSendButton exRegion = Some exSend" by code_simp
  have n: "findSendButton exCombinedRegion = None" by code_simp
  have m: "(exCombined, ''Send & Archive'') \<in> set (specSendCandidates exCombinedRegion)"
    by code_simp
  from find_send_button_first_qualifying [of exRegion] h
  have a: "\<not> hasAttribute exSend BTN_ATTR \<and> exSend \<in> set (descendants exRegion)"
    by blast
  from find_send_button_first_qualifying [of exCombinedRegion] n m
  have b: "\<not> specQualifies (exCombined, ''Send & Archive'')"
    by blast
  from h n m a b show ?thesis by blast
qed

subsection \<open>The synthetic control and the finders\<close>

text \<open>
  C9. The element \<open>buildButton\<close> returns has the class \<open>aoO\<close> and the attribute
  \<open>data-sab-btn\<close>, whatever the classes of the Send button it mirrors. Each of the three
  scans gives the same result on its candidate list as on that list with every element
  bearing \<open>data-sab-btn\<close> taken out: such an element is never returned by
  \<open>findSendButton\<close> or \<open>findNativeSendAndArchiveButton\<close> and contributes no region to
  \<open>findComposeWindows\<close>. In particular the built control itself is never returned.
  Nor does its presence change what the finders return: once the processed marker is
  written on some element and the built control is inserted after the Send button, the
  send-control finder and the native-control finder return the node they returned
  before, and, the identity of the control being new to the page, the region finder
  returns the regions it returned before.
\<close>

theorem synthetic_control_is_skipped:
  "hasClass ''aoO'' (buildButton fresh sendBtn)
   \<and> hasAttribute (buildButton fresh sendBtn) BTN_ATTR
   \<and> findSendButton region =
       (case scanByClass (filter notOurs (querySelectorAll region (hasClass ''aoO''))) of
          Some el \<Rightarrow> Some el
        | None \<Rightarrow> scanByAriaLabel (filter notOurs (querySelectorAll region ariaSendSelector)))
   \<and> findNativeSendAndArchiveButton region =
       firstNotOurs (filter notOurs (querySelectorAll region nativeSelector))
   \<and> findComposeWindows doc dwEl =
       collectRoots doc dwEl (filter notOurs (sendCandidates dwEl)) [] []
   \<and> (\<forall>el. findSendButton region = Some el \<longrightarrow> \<not> hasAttribute el BTN_ATTR)
   \<and> (\<forall>el. findNativeSendAndArchiveButton region = Some el \<longrightarrow> \<not> hasAttribute el BTN_ATTR)
   \<and> findSendButton region \<noteq> Some (buildButton fresh sendBtn)
   \<and> findNativeSendAndArchiveButton region \<noteq> Some (buildButton fresh sendBtn)
   \<and> map_option ident (findSendButton
         (insertAfter (ident sendBtn) (buildButton fresh sendBtn)
            (setAttributeIn c PROCESSED_ATTR ''true'' region)))
       = map_option ident (findSendButton region)
   \<and> map_option ident (findNativeSendAndArchiveButton
         (insertAfter (ident sendBtn) (buildButton fresh sendBtn)
            (setAttributeIn c PROCESSED_ATTR ''true'' region)))
       = map_option ident (findNativeSendAndArchiveButton region)
   \<and> (fresh \<notin> ident ` set (subtree doc) \<and> fresh \<notin> ident ` set (subtree dwEl) \<longrightarrow>
        map ident (findComposeWindows
          (insertAfter (ident sendBtn) (buildButton fresh sendBtn)
             (setAttributeIn c PROCESSED_ATTR ''true'' doc))
          (insertAfter (ident sendBtn) (buildButton fresh sendBtn)
             (setAttributeIn c PROCESSED_ATTR ''true'' dwEl)))
        = map ident (findComposeWindows doc dwEl))"
proof -
  have b: "hasClass ''aoO'' (buildButton fresh sendBtn)
           \<and> hasAttribute (buildButton fresh sendBtn) BTN_ATTR"
    by (rule buildButton_marks)
  have s: "findSendButton region =
       (case scanByClass (filter notOurs (querySelectorAll region (hasClass ''aoO''))) of
          Some el \<Rightarrow> Some el
        | None \<Rightarrow> scanByAriaLabel (filter notOurs (querySelectorAll region ariaSendSelector)))"
    unfolding findSendButton_def
    by (simp only: scanByClass_filter [symmetric] scanByAriaLabel_filter [symmetric])
  have n: "findNativeSendAndArchiveButton region =
       firstNotOurs (filter notOurs (querySelectorAll region nativeSelector))"
    unfolding findNativeSendAndArchiveButton_def by (rule firstNotOurs_filter)
  have cw: "findComposeWindows doc dwEl =
       collectRoots doc dwEl (filter notOurs (sendCandidates dwEl)) [] []"
    unfolding findComposeWindows_def by (rule collectRoots_filter)
  have sf: "\<forall>el. findSendButton region = Some el \<longrightarrow> \<not> hasAttribute el BTN_ATTR"
    using findSendButton_SomeD by blast
  have nf: "\<forall>el. findNativeSendAndArchiveButton region = Some el \<longrightarrow> \<not> hasAttribute el BTN_ATTR"
    by (auto simp: findNativeSendAndArchiveButton_def firstNotOurs_find dest!: find_SomeD)
  have st: "fresh \<notin> ident ` set (subtree doc) \<and> fresh \<notin> ident ` set (subtree dwEl) \<longrightarrow>
        map ident (findComposeWindows
          (insertAfter (ident sendBtn) (buildButton fresh sendBtn)
             (setAttributeIn c PROCESSED_ATTR ''true'' doc))
          (insertAfter (ident sendBtn) (buildButton fresh sendBtn)
             (setAttributeIn c PROCESSED_ATTR ''true'' dwEl)))
        = map ident (findComposeWindows doc dwEl)"
    using regions_after_injection [where f = fresh and doc = doc and dw = dwEl
        and r = "ident sendBtn" and sb = sendBtn and c = c and v = "''true''"]
    by blast
  note fa = finders_after_injection [where r = "ident sendBtn" and f = fresh and sb = sendBtn
      and c = c and v = "''true''" and el = region]
  from b s n cw sf nf fa st show ?thesis by blast
qed

theorem synthetic_control_is_skipped_witness:
  "findSendButton exRegion = Some exSend \<and> \<not> hasAttribute exSend BTN_ATTR
   \<and> findNativeSendAndArchiveButton exNativeRegion = Some exNative
   \<and> \<not> hasAttribute exNative BTN_ATTR
   \<and> 4 \<notin> ident ` set (subtree exDoc) \<and> 4 \<notin> ident ` set (subtree exDw)
   \<and> map ident (findComposeWindows exDoc exDw) = [2]
   \<and> map ident (findComposeWindows
          (insertAfter (ident exSend) (buildButton 4 exSend)
             (setAttributeIn 2 PROCESSED_ATTR ''true'' exDoc))
          (insertAfter (ident exSend) (buildButton 4 exSend)
             (setAttributeIn 2 PROCESSED_ATTR ''true'' exDw))) = [2]"
proof -
  have h: "findSendButton exRegion = Some exSend" by code_simp
  have n: "findNativeSendAndArchiveButton exNativeRegion = Some exNative" by code_simp
  have f: "4 \<notin> ident ` set (subtree exDoc) \<and> 4 \<notin> ident ` set (subtree exDw)"
    by code_simp
  have r: "map ident (findComposeWindows exDoc exDw) = [2]" by code_simp
  from synthetic_control_is_skipped [where fresh = 4 and sendBtn = exSend
      and region = exRegion and doc = exDoc and dwEl = exDw and c = 2] h f r
  have a: "\<not> hasAttribute exSend BTN_ATTR
           \<and> map ident (findComposeWindows
                (insertAfter (ident exSend) (buildButton 4 exSend)
                   (setAttributeIn 2 PROCESSED_ATTR ''true'' exDoc))
                (insertAfter (ident exSend) (buildButton 4 exSend)
                   (setAttributeIn 2 PROCESSED_ATTR ''true'' exDw))) = [2]"
    by simp
  from synthetic_control_is_skipped [where fresh = 4 and sendBtn = exSend
      and region = exNativeRegion and doc = exDoc and dwEl = exDw and c = 2] n
  have b: "\<not> hasAttribute exNative BTN_ATTR" by blast
  from h n a b f r show ?thesis by blast
qed

subsection \<open>Injection happens once\<close>

text \<open>
  C2, as the claim states it, fails: the guard of \<open>injectButton\<close> is the marker on the
  node it is called on, and nothing else. When Gmail renders the compose window anew and
  the marker is gone from it, the next scan injects through the same region a second
  time: the controls 4 and 5 both serve region 2. And where the region finder returns
  the compose window and the popup area around it, each is marked and each puts a control
  beside the one Send button: the compose window then holds two synthetic controls.
\<close>

theorem region_receives_two_controls:
  "controlsFor 2 (trace (run (init True exDoc)
       [Idle 1, Idle 2, Fire 1, Host exMarkerDropped, Notify 0 [[ElementNode exDw []]], Fire 2]))
     = [4, 5]
   \<and> count_list (trace (run (init True exDoc)
       [Idle 1, Idle 2, Fire 1, Host exMarkerDropped, Notify 0 [[ElementNode exDw []]], Fire 2]))
       (SetAttribute 2 PROCESSED_ATTR ''true'') = 2
   \<and> map_option (map (\<lambda>e. (ident e, hasAttribute e BTN_ATTR)) \<circ> children)
       (getElement (document (run (init True exDoc)
          [Idle 1, Idle 2, Fire 1, Host exMarkerDropped, Notify 0 [[ElementNode exDw []]], Fire 2])) 2)
     = Some [(3, False), (5, True), (4, True)]
   \<and> map ident (findComposeWindows exNestedDoc (Element 1 ''div'' [(''class'', ''dw'')] []
       [exRegion, exStray])) = [2, 1]
   \<and> controlsFor 2 (trace (run (init True exNestedDoc) [Idle 1, Idle 2, Fire 1])) = [5]
   \<and> controlsFor 1 (trace (run (init True exNestedDoc) [Idle 1, Idle 2, Fire 1])) = [6]
   \<and> map_option (map (\<lambda>e. (ident e, hasAttribute e BTN_ATTR)) \<circ> children)
       (getElement (document (run (init True exNestedDoc) [Idle 1, Idle 2, Fire 1])) 2)
     = Some [(3, False), (6, True), (5, True)]"
  by code_simp

text \<open>
  C2, amended. On a region that bears the processed marker \<open>injectButton\<close> returns the
  state it was given. On an unmarked region with a locatable Send button it writes the
  marker first and inserts the one new control last. After a call on a region of the
  document with a locatable Send button, the region as it then stands in the document
  bears the marker, so a further call of \<open>injectButton\<close> or of \<open>tryInjectWithRetry\<close> on
  it returns the state unchanged: no second control is inserted. Where the identities
  of the document are distinct, the injecting call leaves exactly one synthetic control
  more in the document. The identity of the
  region is below \<open>nextId\<close> there, as is that of every element of the document in every
  state the script reaches from its start, whatever the page and the events. In every
  run from the script's start in which the page leaves the marker on the elements the
  script has marked, each region is marked at most once and at most one control is
  ever created for it.
\<close>

theorem inject_at_most_once:
  "(hasAttribute composeEl PROCESSED_ATTR \<longrightarrow> injectButton composeEl s = s)
   \<and> (\<not> hasAttribute composeEl PROCESSED_ATTR \<and> findSendButton composeEl = Some sendBtn \<longrightarrow>
        trace (injectButton composeEl s) = trace s @
          [Query (FindSendButton (ident composeEl)),
           SetAttribute (ident composeEl) PROCESSED_ATTR ''true'',
           AddEventListener (ident composeEl) ''keydown'' True
             (ChordHandler (ident composeEl) (ident sendBtn)),
           AddEventListener (nextId s) ''keydown'' False (ButtonKeydown (nextId s)),
           AddEventListener (nextId s) ''click'' False
             (ButtonClick (ident composeEl) (ident sendBtn)),
           InsertAfter (ident sendBtn) (nextId s)]
        \<and> document (injectButton composeEl s) =
            insertAfter (ident sendBtn) (buildButton (nextId s) sendBtn)
              (setAttributeIn (ident composeEl) PROCESSED_ATTR ''true'' (document s)))
   \<and> (getElement (document s) (ident composeEl) = Some composeEl
        \<and> ident composeEl < nextId s \<and> findSendButton composeEl = Some sendBtn \<longrightarrow>
        (\<exists>el'. getElement (document (injectButton composeEl s)) (ident composeEl) = Some el'
           \<and> hasAttribute el' PROCESSED_ATTR
           \<and> injectButton el' (injectButton composeEl s) = injectButton composeEl s
           \<and> tryInjectWithRetry (ident composeEl) n (injectButton composeEl s)
               = injectButton composeEl s))
   \<and> (getElement (document (run (init idle doc) evs)) r = Some el \<longrightarrow>
        ident el < nextId (run (init idle doc) evs))
   \<and> (keepsMarkers (init idle doc) evs \<longrightarrow>
        length (controlsFor r (trace (run (init idle doc) evs))) \<le> 1
        \<and> count_list (trace (run (init idle doc) evs))
              (SetAttribute r PROCESSED_ATTR ''true'') \<le> 1)
   \<and> (distinct (map ident (subtree (document s)))
        \<and> composeEl \<in> set (subtree (document s))
        \<and> \<not> hasAttribute composeEl PROCESSED_ATTR
        \<and> findSendButton composeEl = Some sendBtn \<longrightarrow>
        length (syntheticControls (document (injectButton composeEl s)))
          = Suc (length (syntheticControls (document s))))"
proof (intro conjI impI)
  assume "hasAttribute composeEl PROCESSED_ATTR"
  then show "injectButton composeEl s = s" by (rule injectButton_marked)
next
  assume a: "\<not> hasAttribute composeEl PROCESSED_ATTR \<and> findSendButton composeEl = Some sendBtn"
  note eq = injectButton_inject [OF conjunct1 [OF a] conjunct2 [OF a], of s]
  show "trace (injectButton composeEl s) = trace s @
          [Query (FindSendButton (ident composeEl)),
           SetAttribute (ident composeEl) PROCESSED_ATTR ''true'',
           AddEventListener (ident composeEl) ''keydown'' True
             (ChordHandler (ident composeEl) (ident sendBtn)),
           AddEventListener (nextId s) ''keydown'' False (ButtonKeydown (nextId s)),
           AddEventListener (nextId s) ''click'' False
             (ButtonClick (ident composeEl) (ident sendBtn)),
           InsertAfter (ident sendBtn) (nextId s)]"
    by (simp add: eq)
  show "document (injectButton composeEl s) =
            insertAfter (ident sendBtn) (buildButton (nextId s) sendBtn)
              (setAttributeIn (ident composeEl) PROCESSED_ATTR ''true'' (document s))"
    by (simp add: eq)
next
  assume "getElement (document s) (ident composeEl) = Some composeEl
        \<and> ident composeEl < nextId s \<and> findSendButton composeEl = Some sendBtn"
  then show "\<exists>el'. getElement (document (injectButton composeEl s)) (ident composeEl) = Some el'
           \<and> hasAttribute el' PROCESSED_ATTR
           \<and> injectButton el' (injectButton composeEl s) = injectButton composeEl s
           \<and> tryInjectWithRetry (ident composeEl) n (injectButton composeEl s)
               = injectButton composeEl s"
    using inject_fixpoint [of s composeEl sendBtn n] by blast
next
  assume "getElement (document (run (init idle doc) evs)) r = Some el"
  then show "ident el < nextId (run (init idle doc) evs)"
    by (rule reachable_region_fresh)
next
  assume k: "keepsMarkers (init idle doc) evs"
  show "length (controlsFor r (trace (run (init idle doc) evs))) \<le> 1"
    by (rule injected_once(1) [OF k])
  show "count_list (trace (run (init idle doc) evs)) (SetAttribute r PROCESSED_ATTR ''true'') \<le> 1"
    by (rule injected_once(2) [OF k])
next
  assume a: "distinct (map ident (subtree (document s)))
        \<and> composeEl \<in> set (subtree (document s))
        \<and> \<not> hasAttribute composeEl PROCESSED_ATTR
        \<and> findSendButton composeEl = Some sendBtn"
  then show "length (syntheticControls (document (injectButton composeEl s)))
          = Suc (length (syntheticControls (document s)))"
    using injectButton_adds_one [of s composeEl sendBtn] by blast
qed

theorem inject_at_most_once_witness:
  "getElement (document exState) (ident exRegion) = Some exRegion
   \<and> ident exRegion < nextId exState
   \<and> \<not> hasAttribute exRegion PROCESSED_ATTR
   \<and> findSendButton exRegion = Some exSend
   \<and> trace (injectButton exRegion exState) = trace exState @
          [Query (FindSendButton (ident exRegion)),
           SetAttribute (ident exRegion) PROCESSED_ATTR ''true'',
           AddEventListener (ident exRegion) ''keydown'' True
             (ChordHandler (ident exRegion) (ident exSend)),
           AddEventListener (nextId exState) ''keydown'' False (ButtonKeydown (nextId exState)),
           AddEventListener (nextId exState) ''click'' False
             (ButtonClick (ident exRegion) (ident exSend)),
           InsertAfter (ident exSend) (nextId exState)]
   \<and> tryInjectWithRetry (ident exRegion) 6 (injectButton exRegion exState)
       = injectButton exRegion exState
   \<and> hasAttribute (setAttributeIn 2 PROCESSED_ATTR ''true'' exRegion) PROCESSED_ATTR
   \<and> injectButton (setAttributeIn 2 PROCESSED_ATTR ''true'' exRegion) exState = exState
   \<and> getElement (document (run (init True exDoc) [Idle 1, Idle 2, Fire 1])) 2
       = Some (insertAfter 3 (buildButton 4 exSend)
                 (setAttributeIn 2 PROCESSED_ATTR ''true'' exRegion))
   \<and> ident (insertAfter 3 (buildButton 4 exSend)
                 (setAttributeIn 2 PROCESSED_ATTR ''true'' exRegion))
       < nextId (run (init True exDoc) [Idle 1, Idle 2, Fire 1])
   \<and> keepsMarkers (init True exDoc)
        [Idle 1, Idle 2, Fire 1, Host (setAttributeIn 2 PROCESSED_ATTR ''true'' exMarkerDropped),
         Notify 0 [[ElementNode exDw []]], Fire 2]
   \<and> controlsFor 2 (trace (run (init True exDoc)
        [Idle 1, Idle 2, Fire 1, Host (setAttributeIn 2 PROCESSED_ATTR ''true'' exMarkerDropped),
         Notify 0 [[ElementNode exDw []]], Fire 2])) = [4]
   \<and> length (controlsFor 2 (trace (run (init True exDoc)
        [Idle 1, Idle 2, Fire 1, Host (setAttributeIn 2 PROCESSED_ATTR ''true'' exMarkerDropped),
         Notify 0 [[ElementNode exDw []]], Fire 2]))) \<le> 1
   \<and> distinct (map ident (subtree (document exState)))
   \<and> exRegion \<in> set (subtree (document exState))
   \<and> length (syntheticControls (document exState)) = 0
   \<and> length (syntheticControls (document (injectButton exRegion exState))) = 1"
proof -
  have h1: "getElement (document exState) (ident exRegion) = Some exRegion
            \<and> ident exRegion < nextId exState"
    by code_simp
  have h2: "\<not> hasAttribute exRegion PROCESSED_ATTR \<and> findSendButton exRegion = Some exSend"
    by code_simp
  have h3: "hasAttribute (setAttributeIn 2 PROCESSED_ATTR ''true'' exRegion) PROCESSED_ATTR"
    by code_simp
  from inject_at_most_once [of exRegion exState exSend 6] h1 h2
  have a: "trace (injectButton exRegion exState) = trace exState @
          [Query (FindSendButton (ident exRegion)),
           SetAttribute (ident exRegion) PROCESSED_ATTR ''true'',
           AddEventListener (ident exRegion) ''keydown'' True
             (ChordHandler (ident exRegion) (ident exSend)),
           AddEventListener (nextId exState) ''keydown'' False (ButtonKeydown (nextId exState)),
           AddEventListener (nextId exState) ''click'' False
             (ButtonClick (ident exRegion) (ident exSend)),
           InsertAfter (ident exSend) (nextId exState)]
     \<and> tryInjectWithRetry (ident exRegion) 6 (injectButton exRegion exState)
       = injectButton exRegion exState"
    by blast
  from inject_at_most_once [of "setAttributeIn 2 PROCESSED_ATTR ''true'' exRegion" exState] h3
  have b: "injectButton (setAttributeIn 2 PROCESSED_ATTR ''true'' exRegion) exState = exState"
    by blast
  have h4: "getElement (document (run (init True exDoc) [Idle 1, Idle 2, Fire 1])) 2
       = Some (insertAfter 3 (buildButton 4 exSend)
                 (setAttributeIn 2 PROCESSED_ATTR ''true'' exRegion))"
    by code_simp
  from inject_at_most_once [where idle = True and doc = exDoc
      and evs = "[Idle 1, Idle 2, Fire 1]" and r = 2
      and el = "insertAfter 3 (buildButton 4 exSend)
                 (setAttributeIn 2 PROCESSED_ATTR ''true'' exRegion)"] h4
  have c: "ident (insertAfter 3 (buildButton 4 exSend)
                 (setAttributeIn 2 PROCESSED_ATTR ''true'' exRegion))
       < nextId (run (init True exDoc) [Idle 1, Idle 2, Fire 1])"
    by blast
  have h5: "keepsMarkers (init True exDoc)
        [Idle 1, Idle 2, Fire 1, Host (setAttributeIn 2 PROCESSED_ATTR ''true'' exMarkerDropped),
         Notify 0 [[ElementNode exDw []]], Fire 2]"
    by code_simp
  have h6: "controlsFor 2 (trace (run (init True exDoc)
        [Idle 1, Idle 2, Fire 1, Host (setAttributeIn 2 PROCESSED_ATTR ''true'' exMarkerDropped),
         Notify 0 [[ElementNode exDw []]], Fire 2])) = [4]"
    by code_simp
  from inject_at_most_once [where idle = True and doc = exDoc and r = 2
      and evs = "[Idle 1, Idle 2, Fire 1,
                  Host (setAttributeIn 2 PROCESSED_ATTR ''true'' exMarkerDropped),
                  Notify 0 [[ElementNode exDw []]], Fire 2]"] h5
  have d: "length (controlsFor 2 (trace (run (init True exDoc)
        [Idle 1, Idle 2, Fire 1, Host (setAttributeIn 2 PROCESSED_ATTR ''true'' exMarkerDropped),
         Notify 0 [[ElementNode exDw []]], Fire 2]))) \<le> 1"
    by blast
  have h7: "distinct (map ident (subtree (document exState)))
            \<and> exRegion \<in> set (subtree (document exState))"
    by code_simp
  have h8: "length (syntheticControls (document exState)) = 0" by code_simp
  from inject_at_most_once [of exRegion exState exSend] h2 h7
  have "length (syntheticControls (document (injectButton exRegion exState)))
        = Suc (length (syntheticControls (document exState)))"
    by blast
  with h8 have e: "length (syntheticControls (document (injectButton exRegion exState))) = 1"
    by simp
  from h1 h2 h3 a b h4 c h5 h6 d h7 h8 e show ?thesis by blast
qed

subsection \<open>The debounced scan\<close>

lemma scanInv_iff:
  "scanInv s =
     (timersOk s \<and>
      (\<forall>e \<in> set (idleCallbacks s). snd (snd e) \<noteq> ScanAll) \<and>
      (\<forall>e \<in> set (timers s). snd (snd e) = ScanAll \<longrightarrow> scanTimer s = Some (fst e)) \<and>
      (\<forall>t. scanTimer s = Some t \<longrightarrow> (\<exists>d. (t, d, ScanAll) \<in> set (timers s))))"
proof (cases "scanTimer s")
  case None
  then show ?thesis by (simp add: scanInv_def)
next
  case (Some t)
  have "t \<in> set (map fst (filter (\<lambda>e. snd (snd e) = ScanAll) (timers s)))
        \<longleftrightarrow> (\<exists>d. (t, d, ScanAll) \<in> set (timers s))"
    by (force simp: image_iff)
  with Some show ?thesis by (simp add: scanInv_def)
qed

lemma scanInv_frame:
  assumes "scanInv s" and "timers s' = timers s" and "nextTimer s' = nextTimer s"
    and "scanTimer s' = scanTimer s" and "idleCallbacks s' = idleCallbacks s"
  shows "scanInv s'"
  using assms by (simp add: scanInv_iff timersOk_def)

lemma scanInv_add:
  assumes "scanInv s" and "timers s' = timers s @ [(nextTimer s, d, cb)]"
    and "nextTimer s' = Suc (nextTimer s)" and "scanTimer s' = scanTimer s"
    and "idleCallbacks s' = idleCallbacks s" and "cb \<noteq> ScanAll"
  shows "scanInv s'"
  using assms by (auto simp: scanInv_iff timersOk_def less_Suc_eq)

lemma scanInv_archive: "scanInv s \<Longrightarrow> scanInv (archiveCurrentConversation n s)"
  by (auto simp: scanInv_iff timersOk_def archiveCurrentConversation_def Let_def less_Suc_eq
      split: option.splits)

lemma scanInv_toastFade: "scanInv s \<Longrightarrow> scanInv (toastFade t s)"
  by (rule scanInv_add [where s = s and cb = "ToastRemove t" and d = 400]) simp_all

lemma scanInv_toastRemove: "scanInv s \<Longrightarrow> scanInv (toastRemove t s)"
  by (erule scanInv_frame) simp_all

lemma scanInv_trigger: "scanInv s \<Longrightarrow> scanInv (triggerSendAndArchive el sb s)"
  by (auto simp: scanInv_iff timersOk_def triggerSendAndArchive_def Let_def less_Suc_eq
      split: option.splits)

lemma scanInv_removalCallback: "scanInv s \<Longrightarrow> scanInv (removalCallback oid r s)"
  by (auto simp: scanInv_iff timersOk_def removalCallback_def Let_def less_Suc_eq
      split: option.splits)

lemma scanInv_injectButton: "scanInv s \<Longrightarrow> scanInv (injectButton el s)"
  by (erule scanInv_frame) simp_all

lemma scanInv_tryInject: "scanInv s \<Longrightarrow> scanInv (tryInjectWithRetry r n s)"
  by (auto simp: scanInv_iff timersOk_def tryInjectWithRetry_def Let_def less_Suc_eq
      split: option.splits)

lemma scanInv_scanDw: "scanInv s \<Longrightarrow> scanInv (scanDw s dw)"
proof (cases "getElement (document s) dw")
  case None
  assume "scanInv s" with None show ?thesis by (simp add: scanDw_def)
next
  case (Some dwEl)
  assume inv: "scanInv s"
  have "scanInv (foldl (\<lambda>s' composeEl. tryInjectWithRetry composeEl 6 s') s
                  (map ident (findComposeWindows (document s) dwEl)))"
    by (rule foldl_preserves [where P = scanInv]) (simp_all add: scanInv_tryInject inv)
  with Some show ?thesis by (simp add: scanDw_def)
qed

lemma scanInv_scanAll:
  assumes "timersOk s" and "pendingScans s = []"
    and "\<forall>e \<in> set (idleCallbacks s). snd (snd e) \<noteq> ScanAll"
  shows "scanInv (scanAll s)"
proof -
  have "scanInv (s\<lparr>scanTimer := None\<rparr>)"
    using assms by (auto simp: scanInv_iff timersOk_def pendingScans_def filter_empty_conv)
  then have "scanInv (foldl scanDw (s\<lparr>scanTimer := None\<rparr>)
               (map ident (docQuerySelectorAll (document s) (hasClass ''dw''))))"
    by (rule foldl_preserves [where P = scanInv, rotated]) (rule scanInv_scanDw)
  then show ?thesis by (simp add: scanAll_def Let_def)
qed

lemma scheduleScan_fields:
  "timers (scheduleScan d s) =
     (case scanTimer s of None \<Rightarrow> timers s
      | Some t \<Rightarrow> filter (\<lambda>e. fst e \<noteq> t) (timers s)) @ [(nextTimer s, d, ScanAll)]"
  "nextTimer (scheduleScan d s) = Suc (nextTimer s)"
  "scanTimer (scheduleScan d s) = Some (nextTimer s)"
  "idleCallbacks (scheduleScan d s) = idleCallbacks s"
  "observers (scheduleScan d s) = observers s"
  "nextObserver (scheduleScan d s) = nextObserver s"
  "trace (scheduleScan d s) =
     trace s @ (case scanTimer s of None \<Rightarrow> [] | Some t \<Rightarrow> [ClearTimeout t])
             @ [SetTimeout (nextTimer s) ScanAll d]"
  by (simp_all add: scheduleScan_def Let_def split: option.splits)

lemma scheduleScan_pending:
  assumes "scanInv s"
  shows "pendingScans (scheduleScan d s) = [(nextTimer s, d, ScanAll)]"
proof (cases "scanTimer s")
  case None
  with assms have "\<forall>e \<in> set (timers s). snd (snd e) \<noteq> ScanAll"
    by (auto simp: scanInv_iff)
  then show ?thesis using None
    by (simp add: pendingScans_def scheduleScan_fields filter_empty_conv)
next
  case (Some t)
  with assms have "\<forall>e \<in> set (timers s). snd (snd e) = ScanAll \<longrightarrow> fst e = t"
    by (auto simp: scanInv_iff)
  then have "filter (\<lambda>e. snd (snd e) = ScanAll) (filter (\<lambda>e. fst e \<noteq> t) (timers s)) = []"
    by (auto simp: filter_empty_conv)
  then show ?thesis using Some
    by (simp add: pendingScans_def scheduleScan_fields)
qed

lemma scanInv_scheduleScan:
  assumes "scanInv s"
  shows "scanInv (scheduleScan d s)"
proof (cases "scanTimer s")
  case None
  with assms show ?thesis
    by (auto simp: scanInv_iff timersOk_def scheduleScan_fields less_Suc_eq)
next
  case (Some t)
  with assms have "\<forall>e \<in> set (timers s). snd (snd e) = ScanAll \<longrightarrow> fst e = t"
    by (auto simp: scanInv_iff)
  with assms Some show ?thesis
    by (auto simp: scanInv_iff timersOk_def scheduleScan_fields less_Suc_eq distinct_map_filter)
qed

lemma scanInv_invokeClick: "scanInv s \<Longrightarrow> scanInv (snd (invokeClick h e s))"
  by (cases h)
     (simp_all add: invokeClick_def buttonClickHandler_def scanInv_trigger split: option.splits)

lemma scanInv_dispatchClick: "scanInv s \<Longrightarrow> scanInv (snd (dispatchClick t s))"
  unfolding dispatchClick_def
  by (rule runHandlers_preserves [where P = scanInv]) (simp_all add: scanInv_invokeClick)

lemma scanInv_invokeKeydown:
  assumes inv: "scanInv s"
  shows "scanInv (snd (invokeKeydown h e s))"
proof -
  have "scanInv (emit [Click b] s)" for b
    by (rule scanInv_frame [OF inv]) simp_all
  with inv show ?thesis
    by (cases h)
       (simp_all add: invokeKeydown_def chordHandler_def buttonKeydownHandler_def
          scanInv_trigger scanInv_dispatchClick split: option.splits)
qed

lemma scanInv_dispatchKeydown: "scanInv s \<Longrightarrow> scanInv (snd (dispatchKeydown t e s))"
  unfolding dispatchKeydown_def
  by (rule runHandlers_preserves [where P = scanInv]) (simp_all add: scanInv_invokeKeydown)

lemma scanInv_mainObserver: "scanInv s \<Longrightarrow> scanInv (mainObserverCallback m s)"
  by (simp add: mainObserverCallback_def scanInv_scheduleScan)

lemma scanInv_observe: "scanInv s \<Longrightarrow> scanInv (observe oid ob s)"
  by (erule scanInv_frame) simp_all

lemma scanInv_runCallback:
  assumes "scanInv s" and "cb \<noteq> ScanAll"
  shows "scanInv (runCallback cb s)"
  using assms
  by (cases cb)
     (simp_all add: runCallback_def scanInv_archive scanInv_tryInject scanInv_toastFade
        scanInv_toastRemove scanInv_scheduleScan scanInv_observe
        scanInv_frame [where s = s and s' = "emit es s" for es])

lemma scanInv_parts:
  assumes "scanInv s"
  shows "timersOk s"
    and "\<forall>e \<in> set (idleCallbacks s). snd (snd e) \<noteq> ScanAll"
    and "\<forall>e \<in> set (timers s). snd (snd e) = ScanAll \<longrightarrow> scanTimer s = Some (fst e)"
    and "\<forall>t. scanTimer s = Some t \<longrightarrow> (\<exists>d. (t, d, ScanAll) \<in> set (timers s))"
  using assms by (simp_all add: scanInv_iff)

lemma scanInvI:
  assumes "timersOk s"
    and "\<forall>e \<in> set (idleCallbacks s). snd (snd e) \<noteq> ScanAll"
    and "\<forall>e \<in> set (timers s). snd (snd e) = ScanAll \<longrightarrow> scanTimer s = Some (fst e)"
    and "\<forall>t. scanTimer s = Some t \<longrightarrow> (\<exists>d. (t, d, ScanAll) \<in> set (timers s))"
  shows "scanInv s"
  using assms by (simp add: scanInv_iff)

lemma scanInv_fire:
  assumes inv: "scanInv s" and f: "find (\<lambda>e. fst e = t) (timers s) = Some e"
  shows "scanInv (runCallback (snd (snd e)) (s\<lparr>timers := filter (\<lambda>e. fst e \<noteq> t) (timers s)\<rparr>))"
proof -
  let ?s = "s\<lparr>timers := filter (\<lambda>e. fst e \<noteq> t) (timers s)\<rparr>"
  note tok = scanInv_parts(1) [OF inv] and idl = scanInv_parts(2) [OF inv]
    and pend = scanInv_parts(3) [OF inv] and bck = scanInv_parts(4) [OF inv]
  from find_fstD [OF f] have mem: "e \<in> set (timers s)" and id: "fst e = t" by auto
  from tok have dist: "distinct (map fst (timers s))" by (simp add: timersOk_def)
  have ok: "timersOk ?s"
    using tok by (simp add: timersOk_def distinct_map_filter)
  have idle: "\<forall>e \<in> set (idleCallbacks ?s). snd (snd e) \<noteq> ScanAll"
    using idl by simp
  show ?thesis
  proof (cases "snd (snd e) = ScanAll")
    case True
    with pend mem id have st: "scanTimer s = Some t" by blast
    have "\<forall>e' \<in> set (timers s). snd (snd e') = ScanAll \<longrightarrow> fst e' = t"
    proof (intro ballI impI)
      fix e' assume "e' \<in> set (timers s)" and "snd (snd e') = ScanAll"
      with pend have "scanTimer s = Some (fst e')" by blast
      with st show "fst e' = t" by simp
    qed
    then have "pendingScans ?s = []"
      by (simp add: pendingScans_def filter_empty_conv) blast
    with ok idle True show ?thesis by (simp add: runCallback_def scanInv_scanAll)
  next
    case False
    have a: "\<forall>e' \<in> set (timers ?s). snd (snd e') = ScanAll \<longrightarrow> scanTimer ?s = Some (fst e')"
      using pend by simp
    have b: "\<forall>t'. scanTimer ?s = Some t' \<longrightarrow> (\<exists>d. (t', d, ScanAll) \<in> set (timers ?s))"
    proof (intro allI impI)
      fix t' assume "scanTimer ?s = Some t'"
      then have "scanTimer s = Some t'" by simp
      with bck obtain d where d: "(t', d, ScanAll) \<in> set (timers s)" by blast
      have "t' \<noteq> t"
      proof
        assume "t' = t"
        with distinct_fst_unique [OF dist d mem] id have "e = (t', d, ScanAll)" by simp
        with False show False by simp
      qed
      with d have "(t', d, ScanAll) \<in> set (timers ?s)" by simp
      then show "\<exists>d. (t', d, ScanAll) \<in> set (timers ?s)" by blast
    qed
    from ok idle a b have "scanInv ?s" by (rule scanInvI)
    from scanInv_runCallback [OF this False] show ?thesis .
  qed
qed

lemma scanInv_step:
  assumes inv: "scanInv s"
  shows "scanInv (step s ev)"
proof (cases ev)
  case (Host d)
  have "scanInv (s\<lparr>document := d, nextId := max (nextId s) (Suc (maxIdent d))\<rparr>)"
    by (rule scanInv_frame [OF inv]) simp_all
  then show ?thesis using Host by (simp add: step_def)
next
  case (Fire t)
  show ?thesis
  proof (cases "find (\<lambda>e. fst e = t) (timers s)")
    case None
    then show ?thesis using Fire inv by (simp add: step_def)
  next
    case (Some e)
    from scanInv_fire [OF inv Some] show ?thesis using Fire Some by (simp add: step_def)
  qed
next
  case (Idle t)
  show ?thesis
  proof (cases "find (\<lambda>e. fst e = t) (idleCallbacks s)")
    case None
    then show ?thesis using Idle inv by (simp add: step_def)
  next
    case (Some e)
    let ?s = "s\<lparr>idleCallbacks := filter (\<lambda>e. fst e \<noteq> t) (idleCallbacks s)\<rparr>"
    have i: "scanInv ?s" using inv by (auto simp: scanInv_iff timersOk_def)
    from find_fstD [OF Some] inv have "snd (snd e) \<noteq> ScanAll" by (auto simp: scanInv_iff)
    from scanInv_runCallback [OF i this] show ?thesis using Idle Some by (simp add: step_def)
  qed
next
  case (Notify oid m)
  show ?thesis
  proof (cases "map_of (observers s) oid")
    case None
    then show ?thesis using Notify inv by (simp add: step_def)
  next
    case (Some ob)
    then show ?thesis using Notify inv
      by (cases ob) (simp_all add: step_def scanInv_mainObserver scanInv_removalCallback)
  qed
next
  case (KeyDown t e)
  then show ?thesis using inv by (simp add: step_def scanInv_dispatchKeydown)
next
  case (MouseClick t)
  then show ?thesis using inv by (simp add: step_def scanInv_dispatchClick)
qed

lemma scanInv_run: "scanInv s \<Longrightarrow> scanInv (run s evs)"
  unfolding run_def by (rule foldl_preserves [where P = scanInv]) (simp_all add: scanInv_step)

lemma scanInv_init: "scanInv (init idle doc)"
  by (simp add: init_def runWhenIdle_def scanInv_iff timersOk_def)

lemma pending_at_most_one:
  assumes "scanInv s"
  shows "length (pendingScans s) \<le> 1"
proof -
  note tok = scanInv_parts(1) [OF assms] and pend = scanInv_parts(3) [OF assms]
  have dist: "distinct (map fst (pendingScans s))"
    using tok by (simp add: pendingScans_def timersOk_def distinct_map_filter)
  have same: "\<And>a b. a \<in> set (pendingScans s) \<Longrightarrow> b \<in> set (pendingScans s) \<Longrightarrow> fst a = fst b"
  proof -
    fix a b assume "a \<in> set (pendingScans s)" and "b \<in> set (pendingScans s)"
    then have "a \<in> set (timers s) \<and> snd (snd a) = ScanAll"
      and "b \<in> set (timers s) \<and> snd (snd b) = ScanAll"
      by (simp_all add: pendingScans_def)
    with pend have "scanTimer s = Some (fst a)" and "scanTimer s = Some (fst b)" by blast+
    then show "fst a = fst b" by simp
  qed
  show ?thesis
  proof (cases "pendingScans s")
    case Nil
    then show ?thesis by simp
  next
    case (Cons a as)
    show ?thesis
    proof (cases as)
      case Nil
      with Cons show ?thesis by simp
    next
      case (Cons b bs)
      with \<open>pendingScans s = a # as\<close> same [of a b] dist show ?thesis by auto
    qed
  qed
qed


lemma scanTimer_tryInject [simp]: "scanTimer (tryInjectWithRetry r n s) = scanTimer s"
  by (simp add: tryInjectWithRetry_def Let_def split: option.splits)

lemma scanTimer_scanDw: "scanTimer s = None \<Longrightarrow> scanTimer (scanDw s dw) = None"
proof (cases "getElement (document s) dw")
  case None
  assume "scanTimer s = None" with None show ?thesis by (simp add: scanDw_def)
next
  case (Some dwEl)
  assume n: "scanTimer s = None"
  have "scanTimer (foldl (\<lambda>s' composeEl. tryInjectWithRetry composeEl 6 s') s
                  (map ident (findComposeWindows (document s) dwEl))) = None"
    by (rule foldl_preserves [where P = "\<lambda>s. scanTimer s = None"]) (simp_all add: n)
  with Some show ?thesis by (simp add: scanDw_def)
qed

lemma scanTimer_scanAll: "scanTimer (scanAll s) = None"
proof -
  have "scanTimer (foldl scanDw (s\<lparr>scanTimer := None\<rparr>)
               (map ident (docQuerySelectorAll (document s) (hasClass ''dw'')))) = None"
    by (rule foldl_preserves [where P = "\<lambda>s. scanTimer s = None"])
       (simp_all add: scanTimer_scanDw)
  then show ?thesis by (simp add: scanAll_def Let_def)
qed

lemma scanInv_no_timer:
  assumes "scanInv s" and "scanTimer s = None"
  shows "pendingScans s = []"
proof -
  from scanInv_parts(3) [OF assms(1)] assms(2)
  have "\<forall>e \<in> set (timers s). snd (snd e) \<noteq> ScanAll" by auto
  then show ?thesis by (simp add: pendingScans_def filter_empty_conv)
qed

lemma fire_scan:
  assumes inv: "scanInv s" and f: "find (\<lambda>e. fst e = t) (timers s) = Some (t, d, ScanAll)"
  shows "pendingScans (s\<lparr>timers := filter (\<lambda>e. fst e \<noteq> t) (timers s)\<rparr>) = []"
    and "step s (Fire t) = scanAll (s\<lparr>timers := filter (\<lambda>e. fst e \<noteq> t) (timers s)\<rparr>)"
    and "pendingScans (step s (Fire t)) = []"
proof -
  let ?s = "s\<lparr>timers := filter (\<lambda>e. fst e \<noteq> t) (timers s)\<rparr>"
  from find_fstD [OF f] have mem: "(t, d, ScanAll) \<in> set (timers s)" by simp
  with scanInv_parts(3) [OF inv] have st: "scanTimer s = Some t" by force
  have "\<forall>e' \<in> set (timers s). snd (snd e') = ScanAll \<longrightarrow> fst e' = t"
  proof (intro ballI impI)
    fix e' assume "e' \<in> set (timers s)" and "snd (snd e') = ScanAll"
    with scanInv_parts(3) [OF inv] have "scanTimer s = Some (fst e')" by blast
    with st show "fst e' = t" by simp
  qed
  then show "pendingScans ?s = []"
    by (simp add: pendingScans_def filter_empty_conv) blast
  show eq: "step s (Fire t) = scanAll ?s"
    using f by (simp add: step_def runCallback_def)
  have "scanInv (step s (Fire t))" by (rule scanInv_step [OF inv])
  moreover have "scanTimer (step s (Fire t)) = None" by (simp add: eq scanTimer_scanAll)
  ultimately show "pendingScans (step s (Fire t)) = []" by (rule scanInv_no_timer)
qed

lemma burst_state:
  assumes "scanInv s"
  shows "scanInv (foldl (\<lambda>s' d. scheduleScan d s') s ds)
         \<and> nextTimer (foldl (\<lambda>s' d. scheduleScan d s') s ds) = nextTimer s + length ds"
  using assms
proof (induction ds arbitrary: s)
  case Nil
  then show ?case by simp
next
  case (Cons d ds)
  from Cons.IH [OF scanInv_scheduleScan [OF Cons.prems], of d]
  show ?case by (simp add: scheduleScan_fields)
qed

lemma burst_last:
  assumes "scanInv s" and "ds \<noteq> []"
  shows "pendingScans (foldl (\<lambda>s' d. scheduleScan d s') s ds)
         = [(nextTimer s + length ds - 1, last ds, ScanAll)]"
proof -
  from assms(2) obtain ds' d where ds: "ds = ds' @ [d]" by (cases ds rule: rev_cases) auto
  let ?m = "foldl (\<lambda>s' d. scheduleScan d s') s ds'"
  from burst_state [OF assms(1), of ds']
  have "scanInv ?m" and "nextTimer ?m = nextTimer s + length ds'" by auto
  with scheduleScan_pending [of ?m d] show ?thesis by (simp add: ds)
qed

text \<open>
  C7. In every state the script can reach from its start, whatever the page, the timers,
  the observers and the user do, at most one timer with the \<open>scanAll\<close> callback is
  pending, and it is the one \<open>scanTimer\<close> names. A call of \<open>scheduleScan\<close> clears
  the pending scan timer, if any, before it sets the new one, and leaves exactly the new
  one pending; after a burst of calls only the timer of the last call is pending. When a
  scan timer fires, no other scan is pending while \<open>scanAll\<close> runs, and none is pending
  when it has finished; each callback runs to completion within its step of the event
  loop.
\<close>

theorem at_most_one_pending_scan:
  "scanInv (run (init idle doc) evs)
   \<and> length (pendingScans (run (init idle doc) evs)) \<le> 1
   \<and> (scanInv s \<longrightarrow>
        trace (scheduleScan delay s) =
          trace s @ (case scanTimer s of None \<Rightarrow> [] | Some t \<Rightarrow> [ClearTimeout t])
                  @ [SetTimeout (nextTimer s) ScanAll delay]
        \<and> pendingScans (scheduleScan delay s) = [(nextTimer s, delay, ScanAll)]
        \<and> scanTimer (scheduleScan delay s) = Some (nextTimer s)
        \<and> scanInv (scheduleScan delay s))
   \<and> (scanInv s \<and> delays \<noteq> [] \<longrightarrow>
        pendingScans (foldl (\<lambda>s' d. scheduleScan d s') s delays)
          = [(nextTimer s + length delays - 1, last delays, ScanAll)])
   \<and> (scanInv s \<and> find (\<lambda>e. fst e = t) (timers s) = Some (t, d, ScanAll) \<longrightarrow>
        step s (Fire t) = scanAll (s\<lparr>timers := filter (\<lambda>e. fst e \<noteq> t) (timers s)\<rparr>)
        \<and> pendingScans (s\<lparr>timers := filter (\<lambda>e. fst e \<noteq> t) (timers s)\<rparr>) = []
        \<and> pendingScans (step s (Fire t)) = [])"
proof (intro conjI impI)
  show i: "scanInv (run (init idle doc) evs)"
    by (rule scanInv_run [OF scanInv_init])
  show "length (pendingScans (run (init idle doc) evs)) \<le> 1"
    by (rule pending_at_most_one [OF i])
next
  assume "scanInv s"
  then show "pendingScans (scheduleScan delay s) = [(nextTimer s, delay, ScanAll)]"
    and "scanInv (scheduleScan delay s)"
    by (rule scheduleScan_pending, rule scanInv_scheduleScan)
  show "trace (scheduleScan delay s) =
          trace s @ (case scanTimer s of None \<Rightarrow> [] | Some t \<Rightarrow> [ClearTimeout t])
                  @ [SetTimeout (nextTimer s) ScanAll delay]"
    by (rule scheduleScan_fields)
  show "scanTimer (scheduleScan delay s) = Some (nextTimer s)"
    by (rule scheduleScan_fields)
next
  assume "scanInv s \<and> delays \<noteq> []"
  then show "pendingScans (foldl (\<lambda>s' d. scheduleScan d s') s delays)
          = [(nextTimer s + length delays - 1, last delays, ScanAll)]"
    using burst_last by blast
next
  assume a: "scanInv s \<and> find (\<lambda>e. fst e = t) (timers s) = Some (t, d, ScanAll)"
  note fs = fire_scan [OF conjunct1 [OF a] conjunct2 [OF a]]
  show "step s (Fire t) = scanAll (s\<lparr>timers := filter (\<lambda>e. fst e \<noteq> t) (timers s)\<rparr>)"
    by (rule fs(2))
  show "pendingScans (s\<lparr>timers := filter (\<lambda>e. fst e \<noteq> t) (timers s)\<rparr>) = []"
    by (rule fs(1))
  show "pendingScans (step s (Fire t)) = []"
    by (rule fs(3))
qed

theorem at_most_one_pending_scan_witness:
  "scanInv exScheduled
   \<and> [300, 300, 0] \<noteq> ([] :: nat list)
   \<and> timers exScheduled = [(1, 0, ScanAll)]
   \<and> pendingScans (foldl (\<lambda>s' d. scheduleScan d s') exScheduled [300, 300, 0]) = [(4, 0, ScanAll)]
   \<and> find (\<lambda>e. fst e = 1) (timers exScheduled) = Some (1, 0, ScanAll)
   \<and> pendingScans (step exScheduled (Fire 1)) = []"
proof -
  have h1: "scanInv exScheduled" by code_simp
  have h2: "[300, 300, 0] \<noteq> ([] :: nat list)" by simp
  have h3: "timers exScheduled = [(1, 0, ScanAll)]" by code_simp
  have h4: "find (\<lambda>e. fst e = 1) (timers exScheduled) = Some (1, 0, ScanAll)" by code_simp
  have h5: "nextTimer exScheduled + length [300, 300, 0 :: nat] - 1 = 4 \<and> last [300, 300, 0 :: nat] = 0"
    by code_simp
  from at_most_one_pending_scan [of True exDoc "[]" exScheduled 0 "[300, 300, 0]" 1 0] h1 h2 h4
  have a: "pendingScans (foldl (\<lambda>s' d. scheduleScan d s') exScheduled [300, 300, 0])
            = [(nextTimer exScheduled + length [300, 300, 0 :: nat] - 1, last [300, 300, 0 :: nat], ScanAll)]
           \<and> pendingScans (step exScheduled (Fire 1)) = []"
    by blast
  with h5 have b: "pendingScans (foldl (\<lambda>s' d. scheduleScan d s') exScheduled [300, 300, 0]) = [(4, 0, ScanAll)]
            \<and> pendingScans (step exScheduled (Fire 1)) = []"
    by simp
  from h1 h2 h3 h4 b show ?thesis by blast
qed

subsection \<open>The removal watcher\<close>

lemma removedIds_append [simp]: "removedIds (xs @ ys) = removedIds xs @ removedIds ys"
  by (induction xs rule: removedIds.induct) simp_all

lemma obsInv_view: "obsInv s \<Longrightarrow> obsView s' = obsView s \<Longrightarrow> obsInv s'"
  by (simp add: obsInv_def obsView_def)

lemma obsView_archive [simp]: "obsView (archiveCurrentConversation n s) = obsView s"
  by (simp add: obsView_def archiveCurrentConversation_def Let_def showToast_trace
      split: option.splits)

lemma obsView_toastFade [simp]: "obsView (toastFade t s) = obsView s"
  by (simp add: obsView_def)

lemma obsView_toastRemove [simp]: "obsView (toastRemove t s) = obsView s"
  by (simp add: obsView_def)

lemma injectButton_removed [simp]:
  "removedIds (trace (injectButton el s)) = removedIds (trace s)"
  by (simp add: injectButton_def Let_def split: option.splits)

lemma obsView_injectButton [simp]: "obsView (injectButton el s) = obsView s"
  by (simp add: obsView_def)

lemma obsView_tryInject [simp]: "obsView (tryInjectWithRetry r n s) = obsView s"
  by (simp add: obsView_def tryInjectWithRetry_def Let_def split: option.splits)

lemma obsView_scanDw [simp]: "obsView (scanDw s dw) = obsView s"
proof (cases "getElement (document s) dw")
  case None
  then show ?thesis by (simp add: scanDw_def)
next
  case (Some dwEl)
  have "obsView (foldl (\<lambda>s' composeEl. tryInjectWithRetry composeEl 6 s') s
                  (map ident (findComposeWindows (document s) dwEl))) = obsView s"
    by (rule foldl_preserves [where P = "\<lambda>s'. obsView s' = obsView s"]) simp_all
  with Some show ?thesis by (simp add: scanDw_def)
qed

lemma obsView_scanAll [simp]: "obsView (scanAll s) = obsView s"
proof -
  have "obsView (foldl scanDw (s\<lparr>scanTimer := None\<rparr>)
               (map ident (docQuerySelectorAll (document s) (hasClass ''dw'')))) = obsView s"
  proof (rule foldl_preserves [where P = "\<lambda>s'. obsView s' = obsView s"])
    show "obsView (s\<lparr>scanTimer := None\<rparr>) = obsView s" by (simp add: obsView_def)
  next
    fix sa x assume "obsView sa = obsView s"
    then show "obsView (scanDw sa x) = obsView s" by simp
  qed
  then show ?thesis by (simp add: scanAll_def Let_def)
qed

lemma obsView_scheduleScan [simp]: "obsView (scheduleScan d s) = obsView s"
  by (simp add: obsView_def scheduleScan_fields split: option.splits)

lemma obsView_mainObserver [simp]: "obsView (mainObserverCallback m s) = obsView s"
  by (simp add: mainObserverCallback_def)

lemma update_fresh: "k \<notin> fst ` set xs \<Longrightarrow> AList.update k v xs = xs @ [(k, v)]"
  by (induction xs) auto

lemma obsInv_watch:
  assumes "obsInv s"
  shows "obsInv (watchComposeForRemoval r s)"
proof -
  from assms have fr: "nextObserver s \<notin> fst ` set (observers s)"
    by (auto simp: obsInv_def)
  from assms show ?thesis
    by (auto simp: obsInv_def update_fresh [OF fr] less_Suc_eq)
qed

lemma obsInv_trigger:
  assumes inv: "obsInv s"
  shows "obsInv (triggerSendAndArchive el sb s)"
proof (cases "findNativeSendAndArchiveButton el")
  case None
  let ?e = "emit [Query (FindNative (ident el))] s"
  have e: "obsInv ?e"
    by (rule obsInv_view [OF inv]) (simp add: obsView_def)
  have "obsInv (setTimeout (SendClick sb) 0 (watchComposeForRemoval (ident el) ?e))"
    by (rule obsInv_view [OF obsInv_watch [OF e]]) (simp add: obsView_def)
  with None show ?thesis
    by (simp add: triggerSendAndArchive_def Let_def)
next
  case (Some nb)
  have "obsInv (simulateClick (ident nb) (emit [Query (FindNative (ident el))] s))"
    by (rule obsInv_view [OF inv]) (simp add: obsView_def)
  with Some show ?thesis
    by (simp add: triggerSendAndArchive_def Let_def)
qed

lemma removalCallback_absent:
  assumes "\<not> contains (document s) r"
  shows "removalCallback oid r s =
     s\<lparr>observers := filter (\<lambda>e. fst e \<noteq> oid) (observers s),
       timers := timers s @ [(nextTimer s, 2000, ArchiveDefault)],
       nextTimer := Suc (nextTimer s),
       trace := trace s @ [Disconnect oid, OnRemoved oid,
                           SetTimeout (nextTimer s) ArchiveDefault 2000]\<rparr>"
  using assms
  by (simp add: removalCallback_def onRemoved_def setTimeout_def emit_def disconnect_def)

lemma removalCallback_present:
  "contains (document s) r \<Longrightarrow> removalCallback oid r s = s"
  by (simp add: removalCallback_def)

lemma obsInv_removalCallback:
  assumes inv: "obsInv s" and con: "map_of (observers s) oid = Some (RemovalObserver r)"
  shows "obsInv (removalCallback oid r s)"
proof (cases "contains (document s) r")
  case True
  with inv show ?thesis by (simp add: removalCallback_present)
next
  case False
  from con have mem: "(oid, RemovalObserver r) \<in> set (observers s)"
    by (rule map_of_SomeD)
  then have "fst (oid, RemovalObserver r) \<in> fst ` set (observers s)" by (rule imageI)
  then have mem': "oid \<in> fst ` set (observers s)" by simp
  from inv mem have pos: "0 < oid" by (force simp: obsInv_def)
  from inv mem have lt: "oid < nextObserver s" by (force simp: obsInv_def)
  from inv mem' have nr: "oid \<notin> set (removedIds (trace s))" by (auto simp: obsInv_def)
  from inv nr lt pos show ?thesis
    by (auto simp: removalCallback_absent [OF False] obsInv_def distinct_map_filter)
qed

lemma obsInv_invokeClick: "obsInv s \<Longrightarrow> obsInv (snd (invokeClick h e s))"
  by (cases h)
     (simp_all add: invokeClick_def buttonClickHandler_def obsInv_trigger split: option.splits)

lemma obsInv_dispatchClick: "obsInv s \<Longrightarrow> obsInv (snd (dispatchClick t s))"
  unfolding dispatchClick_def
  by (rule runHandlers_preserves [where P = obsInv]) (simp_all add: obsInv_invokeClick)

lemma obsInv_invokeKeydown:
  assumes inv: "obsInv s"
  shows "obsInv (snd (invokeKeydown h e s))"
proof -
  have "obsInv (emit [Click b] s)" for b
    by (rule obsInv_view [OF inv]) (simp add: obsView_def)
  with inv show ?thesis
    by (cases h)
       (simp_all add: invokeKeydown_def chordHandler_def buttonKeydownHandler_def
          obsInv_trigger obsInv_dispatchClick split: option.splits)
qed

lemma obsInv_dispatchKeydown: "obsInv s \<Longrightarrow> obsInv (snd (dispatchKeydown t e s))"
  unfolding dispatchKeydown_def
  by (rule runHandlers_preserves [where P = obsInv]) (simp_all add: obsInv_invokeKeydown)

lemma set_update_cases:
  "e \<in> set (AList.update k v xs) \<Longrightarrow> e = (k, v) \<or> e \<in> set xs"
  by (induction xs) (auto split: if_splits)

lemma obsInv_startObserver:
  assumes inv: "obsInv s"
  shows "obsInv (observe 0 MainObserver s)"
proof -
  let ?obs = "AList.update 0 MainObserver (observers s)"
  have keys: "fst ` set ?obs = insert 0 (fst ` set (observers s))"
    by (simp add: dom_update)
  have ents: "\<And>e. e \<in> set ?obs \<Longrightarrow> e = (0, MainObserver) \<or> e \<in> set (observers s)"
    by (rule set_update_cases)
  from inv have d: "distinct (map fst ?obs)" by (simp add: obsInv_def distinct_update)
  have lt: "\<forall>e \<in> set ?obs. fst e < nextObserver s"
  proof
    fix e assume "e \<in> set ?obs"
    from ents [OF this] inv show "fst e < nextObserver s" by (auto simp: obsInv_def)
  qed
  have ps: "\<forall>e \<in> set ?obs. snd e \<noteq> MainObserver \<longrightarrow> 0 < fst e"
  proof
    fix e assume "e \<in> set ?obs"
    from ents [OF this] inv show "snd e \<noteq> MainObserver \<longrightarrow> 0 < fst e"
      by (auto simp: obsInv_def)
  qed
  from inv keys have rm: "\<forall>oid \<in> set (removedIds (trace s)).
          0 < oid \<and> oid < nextObserver s \<and> oid \<notin> set (map fst ?obs)"
    by (auto simp: obsInv_def)
  from inv d lt ps rm show ?thesis by (simp add: obsInv_def)
qed

lemma obsView_click [simp]: "obsView (emit [Click b] s) = obsView s"
  by (simp add: obsView_def)

lemma obsInv_runCallback:
  assumes inv: "obsInv s"
  shows "obsInv (runCallback cb s)"
proof (cases "cb = StartObserver")
  case True
  then show ?thesis using inv by (simp add: runCallback_def obsInv_startObserver)
next
  case False
  then have "obsView (runCallback cb s) = obsView s"
    by (cases cb) (simp_all add: runCallback_def)
  from obsInv_view [OF inv this] show ?thesis .
qed

lemma obsInv_step:
  assumes inv: "obsInv s"
  shows "obsInv (step s ev)"
proof (cases ev)
  case (Host d)
  have "obsInv (s\<lparr>document := d, nextId := max (nextId s) (Suc (maxIdent d))\<rparr>)"
    by (rule obsInv_view [OF inv]) (simp add: obsView_def)
  then show ?thesis using Host by (simp add: step_def)
next
  case (Fire t)
  show ?thesis
  proof (cases "find (\<lambda>e. fst e = t) (timers s)")
    case None
    then show ?thesis using Fire inv by (simp add: step_def)
  next
    case (Some e)
    have "obsInv (s\<lparr>timers := filter (\<lambda>e. fst e \<noteq> t) (timers s)\<rparr>)"
      by (rule obsInv_view [OF inv]) (simp add: obsView_def)
    from obsInv_runCallback [OF this] show ?thesis using Fire Some by (simp add: step_def)
  qed
next
  case (Idle t)
  show ?thesis
  proof (cases "find (\<lambda>e. fst e = t) (idleCallbacks s)")
    case None
    then show ?thesis using Idle inv by (simp add: step_def)
  next
    case (Some e)
    have "obsInv (s\<lparr>idleCallbacks := filter (\<lambda>e. fst e \<noteq> t) (idleCallbacks s)\<rparr>)"
      by (rule obsInv_view [OF inv]) (simp add: obsView_def)
    from obsInv_runCallback [OF this] show ?thesis using Idle Some by (simp add: step_def)
  qed
next
  case (Notify oid m)
  show ?thesis
  proof (cases "map_of (observers s) oid")
    case None
    then show ?thesis using Notify inv by (simp add: step_def)
  next
    case (Some ob)
    show ?thesis
    proof (cases ob)
      case MainObserver
      have "obsInv (mainObserverCallback m s)"
        by (rule obsInv_view [OF inv]) simp
      with Notify Some MainObserver show ?thesis by (simp add: step_def)
    next
      case (RemovalObserver r)
      with Some have "map_of (observers s) oid = Some (RemovalObserver r)" by simp
      from obsInv_removalCallback [OF inv this] Notify Some RemovalObserver
      show ?thesis by (simp add: step_def)
    qed
  qed
next
  case (KeyDown t e)
  then show ?thesis using inv by (simp add: step_def obsInv_dispatchKeydown)
next
  case (MouseClick t)
  then show ?thesis using inv by (simp add: step_def obsInv_dispatchClick)
qed

lemma obsInv_run: "obsInv s \<Longrightarrow> obsInv (run s evs)"
  unfolding run_def by (rule foldl_preserves [where P = obsInv]) (simp_all add: obsInv_step)

lemma obsInv_init: "obsInv (init idle doc)"
  by (simp add: init_def runWhenIdle_def obsInv_def)

lemma count_removed: "count_list es (OnRemoved oid) = count_list (removedIds es) oid"
  by (induction es rule: removedIds.induct) simp_all

lemma notify_removal:
  assumes inv: "obsInv s" and con: "map_of (observers s) oid = Some (RemovalObserver r)"
  shows "step s (Notify oid m) = removalCallback oid r s"
    and "\<not> contains (document s) r \<Longrightarrow> map_of (observers (step s (Notify oid m))) oid = None"
proof -
  show eq: "step s (Notify oid m) = removalCallback oid r s"
    using con by (simp add: step_def)
  assume "\<not> contains (document s) r"
  then have "observers (step s (Notify oid m)) = filter (\<lambda>e. fst e \<noteq> oid) (observers s)"
    by (simp add: eq removalCallback_absent)
  then show "map_of (observers (step s (Notify oid m))) oid = None"
    by (simp add: map_of_eq_None_iff image_iff)
qed


lemma watch_registers:
  assumes "obsInv s"
  shows "map_of (observers (watchComposeForRemoval r s)) (nextObserver s) = Some (RemovalObserver r)"
    and "OnRemoved (nextObserver s) \<notin> set (trace (watchComposeForRemoval r s))"
proof -
  show "map_of (observers (watchComposeForRemoval r s)) (nextObserver s) = Some (RemovalObserver r)"
    by (simp add: update_conv')
  from assms have "nextObserver s \<notin> set (removedIds (trace s))"
    by (auto simp: obsInv_def)
  then have "count_list (trace s) (OnRemoved (nextObserver s)) = 0"
    by (simp add: count_removed)
  then show "OnRemoved (nextObserver s) \<notin> set (trace (watchComposeForRemoval r s))"
    by (simp add: count_list_0_iff)
qed

text \<open>
  C6, as the claim states it, fails: every activation on the fallback path registers a
  watcher of its own for the region. The control (identity 4) is clicked twice before
  the compose window (identity 2) closes: two watchers, 1 and 2, watch the same region,
  and when it has left the document each of them calls the callback, so the callback of
  that region runs twice and two archive sequences are started.
\<close>

theorem region_watched_twice_fires_twice:
  "count_list (trace (run (init True exDoc)
       [Idle 1, Idle 2, Fire 1, MouseClick 4, MouseClick 4,
        Host (Element 0 ''body'' [] [] []), Notify 1 [], Notify 2 []]))
     (Observe 1 (RemovalObserver 2)) = 1
   \<and> count_list (trace (run (init True exDoc)
       [Idle 1, Idle 2, Fire 1, MouseClick 4, MouseClick 4,
        Host (Element 0 ''body'' [] [] []), Notify 1 [], Notify 2 []]))
     (Observe 2 (RemovalObserver 2)) = 1
   \<and> removedIds (trace (run (init True exDoc)
       [Idle 1, Idle 2, Fire 1, MouseClick 4, MouseClick 4,
        Host (Element 0 ''body'' [] [] []), Notify 1 [], Notify 2 []])) = [1, 2]
   \<and> count_list (map (snd \<circ> snd) (timers (run (init True exDoc)
       [Idle 1, Idle 2, Fire 1, MouseClick 4, MouseClick 4,
        Host (Element 0 ''body'' [] [] []), Notify 1 [], Notify 2 []]))) ArchiveDefault = 2"
  by code_simp

text \<open>
  C6, amended. In every run of the event loop the callback of a removal watcher, that
  is of one registration of a region, is called at most once. A notification to a
  connected watcher runs its check: while the region is in the document the state is
  returned unchanged; at the first notification that finds the region gone the watcher
  disconnects, then calls the callback (which sets the two-second timer), and is no
  longer connected afterwards, so later notifications do nothing. Each registration
  creates a watcher of a new handle, whose callback has not been called.
\<close>

theorem removal_callback_at_most_once:
  "count_list (trace (run (init idle doc) evs)) (OnRemoved oid) \<le> 1
   \<and> (obsInv s \<longrightarrow>
        count_list (trace (run s evs)) (OnRemoved oid) \<le> 1
        \<and> map_of (observers (watchComposeForRemoval r s)) (nextObserver s)
            = Some (RemovalObserver r)
        \<and> OnRemoved (nextObserver s) \<notin> set (trace (watchComposeForRemoval r s)))
   \<and> (map_of (observers s) oid = Some (RemovalObserver r) \<longrightarrow>
        step s (Notify oid m) = removalCallback oid r s)
   \<and> (map_of (observers s) oid = None \<longrightarrow> step s (Notify oid m) = s)
   \<and> (contains (document s) r \<longrightarrow> removalCallback oid r s = s)
   \<and> (\<not> contains (document s) r \<longrightarrow>
        removalCallback oid r s =
          s\<lparr>observers := filter (\<lambda>e. fst e \<noteq> oid) (observers s),
            timers := timers s @ [(nextTimer s, 2000, ArchiveDefault)],
            nextTimer := Suc (nextTimer s),
            trace := trace s @ [Disconnect oid, OnRemoved oid,
                                SetTimeout (nextTimer s) ArchiveDefault 2000]\<rparr>
        \<and> map_of (observers (removalCallback oid r s)) oid = None)"
proof (intro conjI impI)
  have "obsInv (run (init idle doc) evs)" by (rule obsInv_run [OF obsInv_init])
  then have "distinct (removedIds (trace (run (init idle doc) evs)))" by (simp add: obsInv_def)
  from distinct_count_le [OF this]
  show "count_list (trace (run (init idle doc) evs)) (OnRemoved oid) \<le> 1"
    by (simp add: count_removed)
next
  assume inv: "obsInv s"
  from obsInv_run [OF inv] have "distinct (removedIds (trace (run s evs)))"
    by (simp add: obsInv_def)
  from distinct_count_le [OF this]
  show "count_list (trace (run s evs)) (OnRemoved oid) \<le> 1"
    by (simp add: count_removed)
  from watch_registers [OF inv]
  show "map_of (observers (watchComposeForRemoval r s)) (nextObserver s)
            = Some (RemovalObserver r)"
    and "OnRemoved (nextObserver s) \<notin> set (trace (watchComposeForRemoval r s))"
    by blast+
next
  assume "map_of (observers s) oid = Some (RemovalObserver r)"
  then show "step s (Notify oid m) = removalCallback oid r s" by (simp add: step_def)
next
  assume "map_of (observers s) oid = None"
  then show "step s (Notify oid m) = s" by (simp add: step_def)
next
  assume "contains (document s) r"
  then show "removalCallback oid r s = s" by (rule removalCallback_present)
next
  assume a: "\<not> contains (document s) r"
  show "removalCallback oid r s =
          s\<lparr>observers := filter (\<lambda>e. fst e \<noteq> oid) (observers s),
            timers := timers s @ [(nextTimer s, 2000, ArchiveDefault)],
            nextTimer := Suc (nextTimer s),
            trace := trace s @ [Disconnect oid, OnRemoved oid,
                                SetTimeout (nextTimer s) ArchiveDefault 2000]\<rparr>"
    by (rule removalCallback_absent [OF a])
  show "map_of (observers (removalCallback oid r s)) oid = None"
    by (simp add: removalCallback_absent [OF a] map_of_eq_None_iff image_iff)
qed

theorem removal_callback_at_most_once_witness:
  "obsInv exWatching
   \<and> map_of (observers exWatching) 1 = Some (RemovalObserver 2)
   \<and> map_of (observers exWatching) 7 = None
   \<and> contains (document exWatching) 2
   \<and> \<not> contains (document exGone) 2
   \<and> step exWatching (Notify 1 []) = exWatching
   \<and> step exWatching (Notify 7 []) = exWatching
   \<and> trace (step exGone (Notify 1 [])) =
        [Disconnect 1, OnRemoved 1, SetTimeout 1 ArchiveDefault 2000]
   \<and> count_list (trace (run exGone [Notify 1 [], Notify 1 [], Notify 1 []])) (OnRemoved 1) \<le> 1"
proof -
  have h1: "obsInv exWatching" by code_simp
  have h1': "obsInv exGone" by code_simp
  have h2: "map_of (observers exWatching) 1 = Some (RemovalObserver 2)" by code_simp
  have h2': "map_of (observers exGone) 1 = Some (RemovalObserver 2)" by code_simp
  have h3: "map_of (observers exWatching) 7 = None" by code_simp
  have h4: "contains (document exWatching) 2" by code_simp
  have h5: "\<not> contains (document exGone) 2" by code_simp
  have t: "trace exGone = [] \<and> nextTimer exGone = 1" by code_simp
  from removal_callback_at_most_once [of True exDoc "[]" 1 exWatching 2 "[]"] h2 h4
  have a: "step exWatching (Notify 1 []) = exWatching" by simp
  from removal_callback_at_most_once [of True exDoc "[]" 7 exWatching 2 "[]"] h3
  have b: "step exWatching (Notify 7 []) = exWatching" by blast
  from removal_callback_at_most_once [of True exDoc "[]" 1 exGone 2 "[]"] h2' h5
  have "step exGone (Notify 1 []) =
          exGone\<lparr>observers := filter (\<lambda>e. fst e \<noteq> 1) (observers exGone),
            timers := timers exGone @ [(nextTimer exGone, 2000, ArchiveDefault)],
            nextTimer := Suc (nextTimer exGone),
            trace := trace exGone @ [Disconnect 1, OnRemoved 1,
                                SetTimeout (nextTimer exGone) ArchiveDefault 2000]\<rparr>"
    by simp
  with t have c: "trace (step exGone (Notify 1 [])) =
        [Disconnect 1, OnRemoved 1, SetTimeout 1 ArchiveDefault 2000]"
    by simp
  from removal_callback_at_most_once
         [of True exDoc "[Notify 1 [], Notify 1 [], Notify 1 []]" 1 exGone 2 "[]"] h1'
  have d: "count_list (trace (run exGone [Notify 1 [], Notify 1 [], Notify 1 []])) (OnRemoved 1) \<le> 1"
    by blast
  from h1 h2 h3 h4 h5 a b c d show ?thesis by blast
qed

subsection \<open>The archive sequence\<close>

lemma archiveEvents_append [simp]:
  "archiveEvents (xs @ ys) = archiveEvents xs @ archiveEvents ys"
  by (simp add: archiveEvents_def)

lemma archiveEvents_Nil [simp]: "archiveEvents [] = []"
  by (simp add: archiveEvents_def)

lemma archiveEvents_Cons:
  "archiveEvents (e # es) = (case archiveEvent e of None \<Rightarrow> [] | Some a \<Rightarrow> [a]) @ archiveEvents es"
  by (simp add: archiveEvents_def)

lemma failedAttempts_Suc:
  "failedAttempts (Suc k) = failedAttempts k @ [Lookup, Retry (7 - k) 300]"
  by (simp add: failedAttempts_def)

lemma failedAttempts_0 [simp]: "failedAttempts 0 = []"
  by (simp add: failedAttempts_def)

lemma archView_toastFade [simp]: "archView (toastFade t s) = archView s"
  by (simp add: archView_def archiveTimers_def archiveIdle_def isArchiveCb_def
      archiveEvents_Cons archiveEvent_def)

lemma archView_toastRemove [simp]: "archView (toastRemove t s) = archView s"
  by (simp add: archView_def archiveTimers_def archiveIdle_def isArchiveCb_def
      archiveEvents_Cons archiveEvent_def)

lemma archView_click [simp]: "archView (emit [Click b] s) = archView s"
  by (simp add: archView_def archiveTimers_def archiveIdle_def isArchiveCb_def
      archiveEvents_Cons archiveEvent_def)

lemma archView_observe [simp]: "archView (observe oid ob s) = archView s"
  by (simp add: archView_def archiveTimers_def archiveIdle_def isArchiveCb_def
      archiveEvents_Cons archiveEvent_def)

lemma injectButton_archive [simp]:
  "archiveEvents (trace (injectButton el s)) = archiveEvents (trace s)"
  by (simp add: injectButton_def Let_def archiveEvents_Cons archiveEvent_def
      split: option.splits)

lemma archView_injectButton [simp]: "archView (injectButton el s) = archView s"
  by (simp add: archView_def archiveTimers_def archiveIdle_def)

lemma archView_tryInject [simp]: "archView (tryInjectWithRetry r n s) = archView s"
  by (simp add: tryInjectWithRetry_def Let_def split: option.splits)
     (simp add: archView_def archiveTimers_def archiveIdle_def isArchiveCb_def
      archiveEvents_Cons archiveEvent_def)

lemma archView_scanDw [simp]: "archView (scanDw s dw) = archView s"
proof (cases "getElement (document s) dw")
  case None
  then show ?thesis by (simp add: scanDw_def)
next
  case (Some dwEl)
  have "archView (foldl (\<lambda>s' composeEl. tryInjectWithRetry composeEl 6 s') s
                  (map ident (findComposeWindows (document s) dwEl))) = archView s"
    by (rule foldl_preserves [where P = "\<lambda>s'. archView s' = archView s"]) simp_all
  with Some show ?thesis by (simp add: scanDw_def)
qed

lemma archView_scanAll [simp]: "archView (scanAll s) = archView s"
proof -
  have "archView (foldl scanDw (s\<lparr>scanTimer := None\<rparr>)
               (map ident (docQuerySelectorAll (document s) (hasClass ''dw'')))) = archView s"
  proof (rule foldl_preserves [where P = "\<lambda>s'. archView s' = archView s"])
    show "archView (s\<lparr>scanTimer := None\<rparr>) = archView s"
      by (simp add: archView_def archiveTimers_def archiveIdle_def)
  next
    fix sa x assume "archView sa = archView s"
    then show "archView (scanDw sa x) = archView s" by simp
  qed
  then show ?thesis by (simp add: scanAll_def Let_def)
qed

lemma archView_scheduleScan:
  assumes "scanInv s"
  shows "archView (scheduleScan d s) = archView s"
proof (cases "scanTimer s")
  case None
  then show ?thesis
    by (simp add: archView_def archiveTimers_def archiveIdle_def isArchiveCb_def
        scheduleScan_fields archiveEvents_Cons archiveEvent_def)
next
  case (Some t)
  from scanInv_parts(4) [OF assms] Some obtain d' where d': "(t, d', ScanAll) \<in> set (timers s)"
    by blast
  from scanInv_parts(1) [OF assms] have dist: "distinct (map fst (timers s))"
    by (simp add: timersOk_def)
  have "\<And>e. e \<in> set (timers s) \<Longrightarrow> isArchiveCb (snd (snd e)) \<Longrightarrow> fst e \<noteq> t"
  proof
    fix e assume e: "e \<in> set (timers s)" and a: "isArchiveCb (snd (snd e))" and "fst e = t"
    with distinct_fst_unique [OF dist e d'] have "e = (t, d', ScanAll)" by simp
    with a show False by (simp add: isArchiveCb_def)
  qed
  then have "filter (\<lambda>e. isArchiveCb (snd (snd e))) (filter (\<lambda>e. fst e \<noteq> t) (timers s))
             = filter (\<lambda>e. isArchiveCb (snd (snd e))) (timers s)"
    by (auto intro!: filter_cong)
  with Some show ?thesis
    by (simp add: archView_def archiveTimers_def archiveIdle_def isArchiveCb_def
        scheduleScan_fields archiveEvents_Cons archiveEvent_def)
qed

lemma archView_runCallback:
  assumes "scanInv s" and "\<not> isArchiveCb cb"
  shows "archView (runCallback cb s) = archView s"
  using assms
  by (cases cb) (simp_all add: runCallback_def isArchiveCb_def archView_scheduleScan)


lemma scanInv_remove_timer:
  assumes inv: "scanInv s" and mem: "e \<in> set (timers s)" and id: "fst e = t"
    and ns: "snd (snd e) \<noteq> ScanAll"
  shows "scanInv (s\<lparr>timers := filter (\<lambda>e. fst e \<noteq> t) (timers s)\<rparr>)"
proof -
  let ?s = "s\<lparr>timers := filter (\<lambda>e. fst e \<noteq> t) (timers s)\<rparr>"
  note tok = scanInv_parts(1) [OF inv] and idl = scanInv_parts(2) [OF inv]
    and pend = scanInv_parts(3) [OF inv] and bck = scanInv_parts(4) [OF inv]
  from tok have dist: "distinct (map fst (timers s))" by (simp add: timersOk_def)
  have ok: "timersOk ?s"
    using tok by (simp add: timersOk_def distinct_map_filter)
  have idle: "\<forall>e \<in> set (idleCallbacks ?s). snd (snd e) \<noteq> ScanAll"
    using idl by simp
  have a: "\<forall>e' \<in> set (timers ?s). snd (snd e') = ScanAll \<longrightarrow> scanTimer ?s = Some (fst e')"
    using pend by simp
  have b: "\<forall>t'. scanTimer ?s = Some t' \<longrightarrow> (\<exists>d. (t', d, ScanAll) \<in> set (timers ?s))"
  proof (intro allI impI)
    fix t' assume "scanTimer ?s = Some t'"
    then have "scanTimer s = Some t'" by simp
    with bck obtain d where d: "(t', d, ScanAll) \<in> set (timers s)" by blast
    have "t' \<noteq> t"
    proof
      assume "t' = t"
      with distinct_fst_unique [OF dist d mem] id have "e = (t', d, ScanAll)" by simp
      with ns show False by simp
    qed
    with d have "(t', d, ScanAll) \<in> set (timers ?s)" by simp
    then show "\<exists>d. (t', d, ScanAll) \<in> set (timers ?s)" by blast
  qed
  from ok idle a b show ?thesis by (rule scanInvI)
qed

lemma scanInv_remove_idle:
  "scanInv s \<Longrightarrow> scanInv (s\<lparr>idleCallbacks := filter (\<lambda>e. fst e \<noteq> t) (idleCallbacks s)\<rparr>)"
  by (simp add: scanInv_iff timersOk_def)

lemma showToast_archiveEvents [simp]:
  "archiveEvents (trace (showToast m s)) = archiveEvents (trace s) @ [Toast m]"
  by (simp add: showToast_trace archiveEvents_Cons archiveEvent_def split: option.splits)

lemma archive_attempt_found:
  assumes "archiveBtn (document s) = Some b"
  shows "archiveEvents (trace (archiveCurrentConversation n s)) =
           archiveEvents (trace s) @
             [Lookup, Activate (ident b) ''mousedown'', Activate (ident b) ''mouseup'',
              Activate (ident b) ''click'']"
    and "archiveTimers (archiveCurrentConversation n s) = archiveTimers s"
  using assms
  by (simp_all add: archive_found archiveEvents_Cons archiveEvent_def archiveTimers_def)

lemma archive_attempt_retry:
  assumes "archiveBtn (document s) = None" and "0 < n"
  shows "archiveEvents (trace (archiveCurrentConversation n s)) =
           archiveEvents (trace s) @ [Lookup, Retry (n - 1) 300]"
    and "archiveTimers (archiveCurrentConversation n s) =
           archiveTimers s @ [(nextTimer s, 300, ArchiveRetry (n - 1))]"
  using assms
  by (simp_all add: archiveCurrentConversation_def Let_def archiveEvents_Cons archiveEvent_def
      archiveTimers_def isArchiveCb_def)

lemma archive_attempt_exhausted:
  assumes "archiveBtn (document s) = None"
  shows "archiveEvents (trace (archiveCurrentConversation 0 s)) =
           archiveEvents (trace s) @ [Lookup, Toast failureMessage]"
    and "archiveTimers (archiveCurrentConversation 0 s) = archiveTimers s"
  using assms
  by (simp_all add: archiveCurrentConversation_def Let_def archiveEvents_Cons archiveEvent_def
      archiveTimers_def isArchiveCb_def)

lemma archive_attempt_phase:
  assumes ev: "archiveEvents (trace s) = archiveEvents (trace s0) @ failedAttempts k"
    and none: "archiveTimers s = []" and k: "k \<le> 8"
  shows "archivePhase s0 (archiveCurrentConversation (8 - k) s)"
proof (cases "archiveBtn (document s)")
  case (Some b)
  from archive_attempt_found [OF Some, of "8 - k"] ev none k
  have "archiveSucceeded k (ident b) s0 (archiveCurrentConversation (8 - k) s)"
    by (simp add: archiveSucceeded_def)
  then show ?thesis unfolding archivePhase_def by blast
next
  case None
  show ?thesis
  proof (cases "k < 8")
    case True
    then have pos: "0 < 8 - k" by simp
    from True have r: "8 - k - 1 = 7 - k" and r': "8 - Suc k = 7 - k" by simp_all
    from archive_attempt_retry [OF None pos] ev none True
    have "archivePending (Suc k) s0 (archiveCurrentConversation (8 - k) s)"
      by (simp add: archivePending_def failedAttempts_Suc r r')
    then show ?thesis unfolding archivePhase_def by blast
  next
    case False
    with k have k8: "k = 8" by simp
    from archive_attempt_exhausted [OF None] ev none
    have "archiveFailed s0 (archiveCurrentConversation (8 - k) s)"
      by (simp add: archiveFailed_def k8)
    then show ?thesis unfolding archivePhase_def by blast
  qed
qed

lemma archivePhase_view:
  assumes "archView s' = archView s"
  shows "archivePhase s0 s' = archivePhase s0 s" and "archiveIdle s' = archiveIdle s"
  using assms
  by (simp_all add: archView_def archivePhase_def archivePending_def archiveSucceeded_def
      archiveFailed_def)

lemma archInv_start:
  assumes "scanInv s0" and "archiveTimers s0 = []" and "archiveIdle s0 = []"
  shows "archInv s0 (archiveCurrentConversation 8 s0)"
proof -
  from archive_attempt_phase [of s0 s0 0] assms(2)
  have "archivePhase s0 (archiveCurrentConversation 8 s0)" by simp
  moreover have "archiveIdle (archiveCurrentConversation 8 s0) = archiveIdle s0"
    by (simp add: archiveIdle_def archiveCurrentConversation_def Let_def split: option.splits)
  ultimately show ?thesis
    using assms by (simp add: archInv_def scanInv_archive)
qed

lemma archView_step_frame:
  assumes sinv: "scanInv s" and idle: "archiveIdle s = []" and env: "isEnv ev"
    and other: "\<And>t e. ev = Fire t \<Longrightarrow> find (\<lambda>e. fst e = t) (timers s) = Some e
                  \<Longrightarrow> \<not> isArchiveCb (snd (snd e))"
  shows "archView (step s ev) = archView s"
proof (cases ev)
  case (Host d)
  then show ?thesis
    by (simp add: step_def archView_def archiveTimers_def archiveIdle_def)
next
  case (Fire t)
  show ?thesis
  proof (cases "find (\<lambda>e. fst e = t) (timers s)")
    case None
    then show ?thesis using Fire by (simp add: step_def)
  next
    case (Some e)
    let ?s = "s\<lparr>timers := filter (\<lambda>e. fst e \<noteq> t) (timers s)\<rparr>"
    from other [OF Fire Some] have na: "\<not> isArchiveCb (snd (snd e))" .
    from find_fstD [OF Some] have mem: "e \<in> set (timers s)" and id: "fst e = t" by auto
    from scanInv_parts(1) [OF sinv] have dist: "distinct (map fst (timers s))"
      by (simp add: timersOk_def)
    have others: "\<And>a. a \<in> set (timers s) \<Longrightarrow> a \<noteq> e \<Longrightarrow> fst a \<noteq> t"
      using distinct_fst_unique [OF dist _ mem] id by auto
    have "archiveTimers ?s = archiveTimers s"
      unfolding archiveTimers_def using others na by (auto intro!: filter_cong)
    then have v: "archView ?s = archView s"
      by (simp add: archView_def archiveIdle_def)
    have "archView (runCallback (snd (snd e)) ?s) = archView ?s"
    proof (cases "snd (snd e) = ScanAll")
      case True
      then show ?thesis by (simp add: runCallback_def)
    next
      case ns: False
      from scanInv_remove_timer [OF sinv mem id ns] na
      show ?thesis by (rule archView_runCallback)
    qed
    with v show ?thesis using Fire Some by (simp add: step_def)
  qed
next
  case (Idle t)
  show ?thesis
  proof (cases "find (\<lambda>e. fst e = t) (idleCallbacks s)")
    case None
    then show ?thesis using Idle by (simp add: step_def)
  next
    case (Some e)
    let ?s = "s\<lparr>idleCallbacks := filter (\<lambda>e. fst e \<noteq> t) (idleCallbacks s)\<rparr>"
    from find_fstD [OF Some] have mem: "e \<in> set (idleCallbacks s)" by simp
    with idle have na: "\<not> isArchiveCb (snd (snd e))"
      by (auto simp: archiveIdle_def filter_empty_conv)
    have "archiveIdle ?s = []"
      using idle by (auto simp: archiveIdle_def filter_empty_conv)
    then have v: "archView ?s = archView s"
      using idle by (simp add: archView_def archiveTimers_def)
    from archView_runCallback [OF scanInv_remove_idle [OF sinv] na, of t]
    show ?thesis using v Idle Some by (simp add: step_def)
  qed
next
  case (Notify oid m)
  with env show ?thesis by (simp add: isEnv_def)
next
  case (KeyDown t e)
  with env show ?thesis by (simp add: isEnv_def)
next
  case (MouseClick t)
  with env show ?thesis by (simp add: isEnv_def)
qed

lemma archInv_fire:
  assumes inv: "archInv s0 s" and f: "find (\<lambda>e. fst e = t) (timers s) = Some e"
    and arch: "isArchiveCb (snd (snd e))"
  shows "archInv s0 (step s (Fire t))"
proof -
  let ?s = "s\<lparr>timers := filter (\<lambda>e. fst e \<noteq> t) (timers s)\<rparr>"
  from inv have sinv: "scanInv s" and idle: "archiveIdle s = []" and ph: "archivePhase s0 s"
    by (simp_all add: archInv_def)
  from find_fstD [OF f] have mem: "e \<in> set (timers s)" and id: "fst e = t" by auto
  have st: "step s (Fire t) = runCallback (snd (snd e)) ?s"
    using f by (simp add: step_def)
  have sc: "scanInv (step s (Fire t))" by (rule scanInv_step [OF sinv])
  from arch have ein: "e \<in> set (archiveTimers s)" using mem by (simp add: archiveTimers_def)
  from ph ein obtain k where pk: "archivePending k s0 s"
    by (auto simp: archivePhase_def archiveSucceeded_def archiveFailed_def)
  then have k: "1 \<le> k" "k \<le> 8"
    and evs: "archiveEvents (trace s) = archiveEvents (trace s0) @ failedAttempts k"
    and tm: "map snd (archiveTimers s) = [(300, ArchiveRetry (8 - k))]"
    by (simp_all add: archivePending_def)
  from tm obtain a where a: "archiveTimers s = [a]" and sa: "snd a = (300, ArchiveRetry (8 - k))"
    by (cases "archiveTimers s") auto
  with ein have ea: "e = a" by simp
  with sa have cb: "snd (snd e) = ArchiveRetry (8 - k)" by simp
  have "archiveTimers ?s = filter (\<lambda>e. fst e \<noteq> t) (archiveTimers s)"
    by (simp add: archiveTimers_def) (metis (mono_tags, lifting) filter_cong conj_commute)
  with a ea id have none: "archiveTimers ?s = []" by simp
  have evs': "archiveEvents (trace ?s) = archiveEvents (trace s0) @ failedAttempts k"
    using evs by simp
  from archive_attempt_phase [OF evs' none k(2)]
  have "archivePhase s0 (step s (Fire t))" by (simp add: st cb runCallback_def)
  moreover have "archiveIdle (step s (Fire t)) = archiveIdle s"
    by (simp add: st cb runCallback_def archiveIdle_def archiveCurrentConversation_def Let_def
        split: option.splits)
  ultimately show ?thesis using idle sc by (simp add: archInv_def)
qed

lemma archInv_step:
  assumes inv: "archInv s0 s" and env: "isEnv ev"
  shows "archInv s0 (step s ev)"
proof (cases "\<exists>t e. ev = Fire t \<and> find (\<lambda>e. fst e = t) (timers s) = Some e
                    \<and> isArchiveCb (snd (snd e))")
  case True
  then obtain t e where "ev = Fire t" and "find (\<lambda>e. fst e = t) (timers s) = Some e"
    and "isArchiveCb (snd (snd e))" by blast
  with archInv_fire [OF inv] show ?thesis by simp
next
  case False
  from inv have sinv: "scanInv s" and idle: "archiveIdle s = []" and ph: "archivePhase s0 s"
    by (simp_all add: archInv_def)
  from False have "\<And>t e. ev = Fire t \<Longrightarrow> find (\<lambda>e. fst e = t) (timers s) = Some e
                  \<Longrightarrow> \<not> isArchiveCb (snd (snd e))" by blast
  from archView_step_frame [OF sinv idle env this]
  have v: "archView (step s ev) = archView s" .
  from archivePhase_view(1) [OF v, of s0] archivePhase_view(2) [OF v] ph idle
    scanInv_step [OF sinv, of ev]
  show ?thesis by (simp add: archInv_def)
qed

lemma archInv_run:
  assumes "archInv s0 s" and "\<forall>ev \<in> set evs. isEnv ev"
  shows "archInv s0 (run s evs)"
  using assms
proof (induction evs arbitrary: s)
  case Nil
  then show ?case by (simp add: run_def)
next
  case (Cons ev evs)
  from Cons.prems have "archInv s0 (step s ev)" by (simp add: archInv_step)
  from Cons.IH [OF this] Cons.prems(2) show ?case by (simp add: run_def)
qed

lemma archive_quiet_run:
  assumes "scanInv s" and "archiveIdle s = []" and "archiveTimers s = []"
    and "\<forall>ev \<in> set evs. isEnv ev"
  shows "archView (run s evs) = archView s"
  using assms
proof (induction evs arbitrary: s)
  case Nil
  then show ?case by (simp add: run_def)
next
  case (Cons ev evs)
  have no: "\<And>t e. ev = Fire t \<Longrightarrow> find (\<lambda>e. fst e = t) (timers s) = Some e
                  \<Longrightarrow> \<not> isArchiveCb (snd (snd e))"
  proof
    fix t e assume "find (\<lambda>e. fst e = t) (timers s) = Some e" and "isArchiveCb (snd (snd e))"
    with find_fstD [of t "timers s" e] have "e \<in> set (archiveTimers s)"
      by (simp add: archiveTimers_def)
    with Cons.prems(3) show False by simp
  qed
  from Cons.prems have env: "isEnv ev" by simp
  from archView_step_frame [OF Cons.prems(1,2) env no]
  have v: "archView (step s ev) = archView s" .
  then have "archiveIdle (step s ev) = []" and "archiveTimers (step s ev) = []"
    using Cons.prems(2,3) by (simp_all add: archView_def)
  from Cons.IH [OF scanInv_step [OF Cons.prems(1)] this] Cons.prems(4) v
  show ?case by (simp add: run_def)
qed

lemma count_lookup: "count_list es (Query FindArchive) = count_list (archiveEvents es) Lookup"
  by (induction es)
     (auto simp: archiveEvents_Cons archiveEvent_def
        split: effect.splits query.splits callback.splits)

lemma count_toast: "count_list es (ShowToast m) = count_list (archiveEvents es) (Toast m)"
  by (induction es)
     (auto simp: archiveEvents_Cons archiveEvent_def
        split: effect.splits query.splits callback.splits)

lemma count_failed [simp]:
  "count_list (failedAttempts k) Lookup = k" "count_list (failedAttempts k) (Toast m) = 0"
  by (induction k) (simp_all add: failedAttempts_Suc)

lemma archivePhase_counts:
  assumes "archivePhase s0 s"
  shows "count_list (trace s) (Query FindArchive) \<le> count_list (trace s0) (Query FindArchive) + 9"
    and "count_list (trace s) (ShowToast m) \<le> count_list (trace s0) (ShowToast m) + 1"
  using assms
  by (auto simp: archivePhase_def archivePending_def archiveSucceeded_def archiveFailed_def
      count_lookup count_toast)


text \<open>
  C1, as the claim states it, fails in its count. With the default budget of 8 the
  function is entered with \<open>retriesLeft\<close> 8, 7, ..., 0, and it looks the archive control
  up on every entry: on a page that never shows the control, nine lookups are made, the
  ninth followed by the notification.
\<close>

theorem nine_archive_attempts:
  "archiveBtn (document exState) = None
   \<and> count_list
        (trace (run (archiveCurrentConversation 8 exState)
                  [Fire 1, Fire 2, Fire 3, Fire 4, Fire 5, Fire 6, Fire 7, Fire 8]))
        (Query FindArchive) = 9
   \<and> archiveEvents
        (trace (run (archiveCurrentConversation 8 exState)
                  [Fire 1, Fire 2, Fire 3, Fire 4, Fire 5, Fire 6, Fire 7, Fire 8]))
      = [Lookup, Retry 7 300, Lookup, Retry 6 300, Lookup, Retry 5 300, Lookup, Retry 4 300,
         Lookup, Retry 3 300, Lookup, Retry 2 300, Lookup, Retry 1 300, Lookup, Retry 0 300,
         Lookup, Toast failureMessage]"
  by code_simp

text \<open>
  C1, amended. Take a state in which no archive sequence is under way and start one with
  the default budget; let the page change and timers and idle callbacks fire in any order
  (nothing else activates the sequencer). At every moment the archive-related entries the
  sequence has added to the trace are \<open>k\<close> failed attempts, each a lookup followed by a
  retry timer set with delay 300, and then one of: nothing more, with exactly that retry
  timer pending (\<open>1 \<le> k \<le> 8\<close>); a further lookup and the three events on the control
  found, with no archive timer pending (\<open>k \<le> 8\<close>); or, for \<open>k = 8\<close>, a ninth lookup
  and the failure notification, with no archive timer pending. So at most nine lookups
  are made and the notification is shown at most once, after the ninth; and once no
  archive timer is pending, nothing archive-related happens any more.
\<close>

theorem archive_sequence_outcomes:
  assumes "scanInv s0" and "archiveTimers s0 = []" and "archiveIdle s0 = []"
    and "\<forall>ev \<in> set evs. isEnv ev"
  shows "archivePhase s0 (run (archiveCurrentConversation 8 s0) evs)
   \<and> count_list (trace (run (archiveCurrentConversation 8 s0) evs)) (Query FindArchive)
       \<le> count_list (trace s0) (Query FindArchive) + 9
   \<and> count_list (trace (run (archiveCurrentConversation 8 s0) evs)) (ShowToast failureMessage)
       \<le> count_list (trace s0) (ShowToast failureMessage) + 1
   \<and> (archiveTimers (run (archiveCurrentConversation 8 s0) evs) = [] \<longrightarrow>
        (\<forall>more. (\<forall>ev \<in> set more. isEnv ev) \<longrightarrow>
           archView (run (run (archiveCurrentConversation 8 s0) evs) more)
             = archView (run (archiveCurrentConversation 8 s0) evs)))"
proof -
  let ?s = "run (archiveCurrentConversation 8 s0) evs"
  from archInv_run [OF archInv_start [OF assms(1-3)] assms(4)]
  have inv: "archInv s0 ?s" .
  then have ph: "archivePhase s0 ?s" and sc: "scanInv ?s" and idl: "archiveIdle ?s = []"
    by (simp_all add: archInv_def)
  have quiet: "archiveTimers ?s = [] \<longrightarrow>
        (\<forall>more. (\<forall>ev \<in> set more. isEnv ev) \<longrightarrow> archView (run ?s more) = archView ?s)"
    using archive_quiet_run [OF sc idl] by blast
  from ph archivePhase_counts [OF ph] quiet show ?thesis by blast
qed

theorem archive_sequence_outcomes_witness:
  "scanInv exState \<and> archiveTimers exState = [] \<and> archiveIdle exState = []
   \<and> isEnv (Fire 1) \<and> isEnv (Fire 2)
   \<and> archivePhase exState (run (archiveCurrentConversation 8 exState) [Fire 1, Fire 2])
   \<and> archivePending 3 exState (run (archiveCurrentConversation 8 exState) [Fire 1, Fire 2])
   \<and> count_list (trace (run (archiveCurrentConversation 8 exState) [Fire 1, Fire 2]))
        (Query FindArchive) \<le> count_list (trace exState) (Query FindArchive) + 9
   \<and> scanInv exArchivable \<and> archiveTimers exArchivable = [] \<and> archiveIdle exArchivable = []
   \<and> archiveSucceeded 0 9 exArchivable (run (archiveCurrentConversation 8 exArchivable) [])
   \<and> archiveTimers (run (archiveCurrentConversation 8 exArchivable) []) = []
   \<and> archView (run (run (archiveCurrentConversation 8 exArchivable) []) [Fire 1, Fire 2])
       = archView (run (archiveCurrentConversation 8 exArchivable) [])"
proof -
  have h1: "scanInv exState \<and> archiveTimers exState = [] \<and> archiveIdle exState = []"
    by code_simp
  have h2: "isEnv (Fire 1) \<and> isEnv (Fire 2)" by (simp add: isEnv_def)
  then have h2': "\<forall>ev \<in> set [Fire 1, Fire 2]. isEnv ev" by simp
  have h3: "scanInv exArchivable \<and> archiveTimers exArchivable = [] \<and> archiveIdle exArchivable = []"
    by code_simp
  have h4: "\<forall>ev \<in> set ([] :: event list). isEnv ev" by simp
  have p: "archivePending 3 exState (run (archiveCurrentConversation 8 exState) [Fire 1, Fire 2])"
    by code_simp
  have q: "archiveSucceeded 0 9 exArchivable (run (archiveCurrentConversation 8 exArchivable) [])
           \<and> archiveTimers (run (archiveCurrentConversation 8 exArchivable) []) = []"
    by code_simp
  from archive_sequence_outcomes [of exState "[Fire 1, Fire 2]"] h1 h2'
  have a: "archivePhase exState (run (archiveCurrentConversation 8 exState) [Fire 1, Fire 2])
     \<and> count_list (trace (run (archiveCurrentConversation 8 exState) [Fire 1, Fire 2]))
        (Query FindArchive) \<le> count_list (trace exState) (Query FindArchive) + 9"
    by blast
  from archive_sequence_outcomes [of exArchivable "[]"] h3 h4 q h2'
  have b: "archView (run (run (archiveCurrentConversation 8 exArchivable) []) [Fire 1, Fire 2])
       = archView (run (archiveCurrentConversation 8 exArchivable) [])"
    by blast
  from h1 h2 h3 p q a b show ?thesis by blast
qed

subsection \<open>The injection retry chain\<close>

lemma injectEvents_append [simp]:
  "injectEvents r (xs @ ys) = injectEvents r xs @ injectEvents r ys"
  by (simp add: injectEvents_def)

lemma injectEvents_Nil [simp]: "injectEvents r [] = []"
  by (simp add: injectEvents_def)

lemma injectEvents_Cons:
  "injectEvents r (e # es) =
     (case injectEvent r e of None \<Rightarrow> [] | Some a \<Rightarrow> [a]) @ injectEvents r es"
  by (simp add: injectEvents_def)

lemma failedLookups_Suc:
  "failedLookups (Suc k) = failedLookups k @ [SendLookup, RetryInject (5 - k) 300]"
  by (simp add: failedLookups_def)

lemma failedLookups_0 [simp]: "failedLookups 0 = []"
  by (simp add: failedLookups_def)

lemmas injView_defs =
  injView_def injectTimers_def scanSources_def isInjectCb_def isScanSource_def
  injectEvents_Cons injectEvent_def

lemma injView_toastFade [simp]: "injView r (toastFade t s) = injView r s"
  by (simp add: injView_defs)

lemma injView_toastRemove [simp]: "injView r (toastRemove t s) = injView r s"
  by (simp add: injView_defs)

lemma injView_click [simp]: "injView r (emit [Click b] s) = injView r s"
  by (simp add: injView_defs)

lemma injView_observe [simp]: "injView r (observe oid ob s) = injView r s"
  by (simp add: injView_defs)

lemma showToast_injectEvents [simp]:
  "injectEvents r (trace (showToast m s)) = injectEvents r (trace s)"
  by (simp add: showToast_trace injectEvents_Cons injectEvent_def split: option.splits)

lemma injView_archive [simp]: "injView r (archiveCurrentConversation n s) = injView r s"
  by (simp add: archiveCurrentConversation_def Let_def split: option.splits)
     (simp add: injView_def injectTimers_def scanSources_def isInjectCb_def isScanSource_def
        injectEvents_Cons injectEvent_def)

lemma getElement_ident: "getElement doc i = Some el \<Longrightarrow> ident el = i"
  by (auto simp: getElement_def dest: find_SomeD)

lemma injectButton_other:
  assumes "ident el \<noteq> r"
  shows "injView r (injectButton el s) = injView r s"
  using assms
  by (simp add: injectButton_def Let_def split: option.splits)
     (simp add: injView_def injectTimers_def scanSources_def isInjectCb_def isScanSource_def
        injectEvents_Cons injectEvent_def)

lemma tryInject_other:
  assumes "r' \<noteq> r"
  shows "injView r (tryInjectWithRetry r' n s) = injView r s"
proof (cases "getElement (document s) r'")
  case None
  then show ?thesis by (simp add: tryInjectWithRetry_def)
next
  case (Some el)
  from getElement_ident [OF Some] assms have ne: "ident el \<noteq> r" by simp
  have e: "injView r (emit [Query (FindSendButton r')] s) = injView r s"
    using assms by (simp add: injView_defs)
  have t: "injView r (setTimeout (InjectRetry r' (n - 1)) 300 (emit [Query (FindSendButton r')] s))
           = injView r s"
    using assms by (simp add: injView_defs)
  from Some e t injectButton_other [OF ne, of "emit [Query (FindSendButton r')] s"]
  show ?thesis
    by (simp add: tryInjectWithRetry_def Let_def split: option.splits)
qed

lemma injView_runCallback:
  assumes "\<not> isInjectCb r cb" and "\<not> isScanSource cb"
  shows "injView r (runCallback cb s) = injView r s"
  using assms
  by (cases cb) (simp_all add: runCallback_def isInjectCb_def isScanSource_def tryInject_other)


lemma tryInject_scanSources [simp]:
  "scanSources r' (tryInjectWithRetry r n s) = scanSources r' s"
  by (simp add: tryInjectWithRetry_def Let_def split: option.splits)
     (simp add: scanSources_def isScanSource_def)

lemma inject_attempt_phase:
  assumes ev: "injectEvents r (trace s) = injectEvents r (trace s0) @ failedLookups k"
    and none: "injectTimers r s = []" and k: "k \<le> 6"
  shows "injectPhase r s0 (tryInjectWithRetry r (6 - k) s)"
proof -
  let ?s1 = "emit [Query (FindSendButton r)] s"
  have stopped: "injectStopped k r s0 s"
    using ev none k by (simp add: injectStopped_def)
  show ?thesis
  proof (cases "getElement (document s) r")
    case None
    with stopped show ?thesis
      unfolding injectPhase_def by (auto simp: tryInjectWithRetry_def)
  next
    case (Some el)
    note idr = getElement_ident [OF Some]
    show ?thesis
    proof (cases "hasAttribute el PROCESSED_ATTR")
      case True
      with Some stopped show ?thesis
        unfolding injectPhase_def by (auto simp: tryInjectWithRetry_def)
    next
      case unm: False
      show ?thesis
      proof (cases "findSendButton el")
        case (Some sb)
        have eq: "tryInjectWithRetry r (6 - k) s = injectButton el ?s1"
          using \<open>getElement (document s) r = Some el\<close> unm Some
          by (simp add: tryInjectWithRetry_def Let_def)
        have "injectEvents r (trace (injectButton el ?s1)) =
                injectEvents r (trace s) @ [SendLookup, SendLookup, Marked]"
          by (simp add: injectButton_inject [OF unm Some] idr injectEvents_Cons injectEvent_def)
        moreover have "injectTimers r (injectButton el ?s1) = injectTimers r s"
          by (simp add: injectTimers_def)
        ultimately have "injectInjected k r s0 (tryInjectWithRetry r (6 - k) s)"
          using ev none k by (simp add: injectInjected_def eq)
        then show ?thesis unfolding injectPhase_def by blast
      next
        case None
        show ?thesis
        proof (cases "k < 6")
          case True
          then have r: "6 - k - 1 = 5 - k" and r': "6 - Suc k = 5 - k" by simp_all
          have eq: "tryInjectWithRetry r (6 - k) s =
                      setTimeout (InjectRetry r (6 - k - 1)) 300 ?s1"
            using \<open>getElement (document s) r = Some el\<close> unm None True
            by (simp add: tryInjectWithRetry_def Let_def)
          have "injectPending (Suc k) r s0 (tryInjectWithRetry r (6 - k) s)"
            using ev none True
            by (simp add: eq injectPending_def failedLookups_Suc r r' injectTimers_def
                isInjectCb_def injectEvents_Cons injectEvent_def)
          then show ?thesis unfolding injectPhase_def by blast
        next
          case False
          with k have k6: "k = 6" by simp
          have eq: "tryInjectWithRetry r (6 - k) s = ?s1"
            using \<open>getElement (document s) r = Some el\<close> unm None k6
            by (simp add: tryInjectWithRetry_def Let_def)
          have "injectGaveUp r s0 ?s1"
            using ev none
            by (simp add: k6 injectGaveUp_def injectTimers_def injectEvents_Cons
                injectEvent_def)
          then have "injectGaveUp r s0 (tryInjectWithRetry r (6 - k) s)"
            by (simp only: eq)
          then show ?thesis unfolding injectPhase_def by blast
        qed
      qed
    qed
  qed
qed

lemma injectPhase_view:
  assumes "injView r s' = injView r s"
  shows "injectPhase r s0 s' = injectPhase r s0 s" and "scanSources r s' = scanSources r s"
  using assms
  by (simp_all add: injView_def injectPhase_def injectPending_def injectInjected_def
      injectStopped_def injectGaveUp_def)

lemma injInv_start:
  assumes "scanInv s0" and "injectTimers r s0 = []" and "scanSources r s0 = []"
  shows "injInv r s0 (tryInjectWithRetry r 6 s0)"
proof -
  from inject_attempt_phase [of r s0 s0 0] assms(2)
  have "injectPhase r s0 (tryInjectWithRetry r 6 s0)" by simp
  with assms show ?thesis by (simp add: injInv_def scanInv_tryInject)
qed

lemma injView_step_frame:
  assumes sinv: "scanInv s" and src: "scanSources r s = []" and env: "isEnv ev"
    and other: "\<And>t e. ev = Fire t \<Longrightarrow> find (\<lambda>e. fst e = t) (timers s) = Some e
                  \<Longrightarrow> \<not> isInjectCb r (snd (snd e))"
  shows "injView r (step s ev) = injView r s"
proof (cases ev)
  case (Host d)
  then show ?thesis
    by (simp add: step_def injView_def injectTimers_def scanSources_def)
next
  case (Fire t)
  show ?thesis
  proof (cases "find (\<lambda>e. fst e = t) (timers s)")
    case None
    then show ?thesis using Fire by (simp add: step_def)
  next
    case (Some e)
    let ?s = "s\<lparr>timers := filter (\<lambda>e. fst e \<noteq> t) (timers s)\<rparr>"
    from other [OF Fire Some] have ni: "\<not> isInjectCb r (snd (snd e))" .
    from find_fstD [OF Some] have mem: "e \<in> set (timers s)" and id: "fst e = t" by auto
    from src mem have ns: "\<not> isScanSource (snd (snd e))"
      by (auto simp: scanSources_def filter_empty_conv)
    from scanInv_parts(1) [OF sinv] have dist: "distinct (map fst (timers s))"
      by (simp add: timersOk_def)
    have others: "\<And>a. a \<in> set (timers s) \<Longrightarrow> a \<noteq> e \<Longrightarrow> fst a \<noteq> t"
      using distinct_fst_unique [OF dist _ mem] id by auto
    have "injectTimers r ?s = injectTimers r s"
      unfolding injectTimers_def using others ni by (auto intro!: filter_cong)
    moreover have "scanSources r ?s = scanSources r s"
      using src by (auto simp: scanSources_def filter_empty_conv)
    ultimately have v: "injView r ?s = injView r s"
      by (simp add: injView_def)
    from injView_runCallback [OF ni ns, of ?s] v
    show ?thesis using Fire Some by (simp add: step_def)
  qed
next
  case (Idle t)
  show ?thesis
  proof (cases "find (\<lambda>e. fst e = t) (idleCallbacks s)")
    case None
    then show ?thesis using Idle by (simp add: step_def)
  next
    case (Some e)
    let ?s = "s\<lparr>idleCallbacks := filter (\<lambda>e. fst e \<noteq> t) (idleCallbacks s)\<rparr>"
    from find_fstD [OF Some] have mem: "e \<in> set (idleCallbacks s)" by simp
    with src have ni: "\<not> isInjectCb r (snd (snd e))" and ns: "\<not> isScanSource (snd (snd e))"
      by (auto simp: scanSources_def filter_empty_conv)
    have "scanSources r ?s = scanSources r s"
      using src by (auto simp: scanSources_def filter_empty_conv)
    then have v: "injView r ?s = injView r s"
      by (simp add: injView_def injectTimers_def)
    from injView_runCallback [OF ni ns, of ?s] v
    show ?thesis using Idle Some by (simp add: step_def)
  qed
next
  case (Notify oid m)
  with env show ?thesis by (simp add: isEnv_def)
next
  case (KeyDown t e)
  with env show ?thesis by (simp add: isEnv_def)
next
  case (MouseClick t)
  with env show ?thesis by (simp add: isEnv_def)
qed

lemma injInv_fire:
  assumes inv: "injInv r s0 s" and f: "find (\<lambda>e. fst e = t) (timers s) = Some e"
    and chain: "isInjectCb r (snd (snd e))"
  shows "injInv r s0 (step s (Fire t))"
proof -
  let ?s = "s\<lparr>timers := filter (\<lambda>e. fst e \<noteq> t) (timers s)\<rparr>"
  from inv have sinv: "scanInv s" and src: "scanSources r s = []" and ph: "injectPhase r s0 s"
    by (simp_all add: injInv_def)
  from find_fstD [OF f] have mem: "e \<in> set (timers s)" and id: "fst e = t" by auto
  have st: "step s (Fire t) = runCallback (snd (snd e)) ?s"
    using f by (simp add: step_def)
  have sc: "scanInv (step s (Fire t))" by (rule scanInv_step [OF sinv])
  from chain have ein: "e \<in> set (injectTimers r s)" using mem by (simp add: injectTimers_def)
  from ph ein obtain k where pk: "injectPending k r s0 s"
    by (auto simp: injectPhase_def injectInjected_def injectStopped_def injectGaveUp_def)
  then have k: "1 \<le> k" "k \<le> 6"
    and evs: "injectEvents r (trace s) = injectEvents r (trace s0) @ failedLookups k"
    and tm: "map snd (injectTimers r s) = [(300, InjectRetry r (6 - k))]"
    by (simp_all add: injectPending_def)
  from tm obtain a where a: "injectTimers r s = [a]" and sa: "snd a = (300, InjectRetry r (6 - k))"
    by (cases "injectTimers r s") auto
  with ein have ea: "e = a" by simp
  with sa have cb: "snd (snd e) = InjectRetry r (6 - k)" by simp
  have "injectTimers r ?s = filter (\<lambda>e. fst e \<noteq> t) (injectTimers r s)"
    by (simp add: injectTimers_def) (metis (mono_tags, lifting) filter_cong conj_commute)
  with a ea id have none: "injectTimers r ?s = []" by simp
  have evs': "injectEvents r (trace ?s) = injectEvents r (trace s0) @ failedLookups k"
    using evs by simp
  from inject_attempt_phase [OF evs' none k(2)]
  have "injectPhase r s0 (step s (Fire t))" by (simp add: st cb runCallback_def)
  moreover have "scanSources r ?s = []"
    using src by (auto simp: scanSources_def filter_empty_conv)
  then have "scanSources r (step s (Fire t)) = []"
    by (simp add: st cb runCallback_def)
  ultimately show ?thesis using sc by (simp add: injInv_def)
qed

lemma injInv_step:
  assumes inv: "injInv r s0 s" and env: "isEnv ev"
  shows "injInv r s0 (step s ev)"
proof (cases "\<exists>t e. ev = Fire t \<and> find (\<lambda>e. fst e = t) (timers s) = Some e
                    \<and> isInjectCb r (snd (snd e))")
  case True
  then obtain t e where "ev = Fire t" and "find (\<lambda>e. fst e = t) (timers s) = Some e"
    and "isInjectCb r (snd (snd e))" by blast
  with injInv_fire [OF inv] show ?thesis by simp
next
  case False
  from inv have sinv: "scanInv s" and src: "scanSources r s = []" and ph: "injectPhase r s0 s"
    by (simp_all add: injInv_def)
  from False have "\<And>t e. ev = Fire t \<Longrightarrow> find (\<lambda>e. fst e = t) (timers s) = Some e
                  \<Longrightarrow> \<not> isInjectCb r (snd (snd e))" by blast
  from injView_step_frame [OF sinv src env this]
  have v: "injView r (step s ev) = injView r s" .
  from injectPhase_view(1) [OF v, of s0] injectPhase_view(2) [OF v] ph src
    scanInv_step [OF sinv, of ev]
  show ?thesis by (simp add: injInv_def)
qed

lemma injInv_run:
  assumes "injInv r s0 s" and "\<forall>ev \<in> set evs. isEnv ev"
  shows "injInv r s0 (run s evs)"
  using assms
proof (induction evs arbitrary: s)
  case Nil
  then show ?case by (simp add: run_def)
next
  case (Cons ev evs)
  from Cons.prems have "injInv r s0 (step s ev)" by (simp add: injInv_step)
  from Cons.IH [OF this] Cons.prems(2) show ?case by (simp add: run_def)
qed

lemma inject_quiet_run:
  assumes "scanInv s" and "scanSources r s = []" and "injectTimers r s = []"
    and "\<forall>ev \<in> set evs. isEnv ev"
  shows "injView r (run s evs) = injView r s"
  using assms
proof (induction evs arbitrary: s)
  case Nil
  then show ?case by (simp add: run_def)
next
  case (Cons ev evs)
  have no: "\<And>t e. ev = Fire t \<Longrightarrow> find (\<lambda>e. fst e = t) (timers s) = Some e
                  \<Longrightarrow> \<not> isInjectCb r (snd (snd e))"
  proof
    fix t e assume "find (\<lambda>e. fst e = t) (timers s) = Some e" and "isInjectCb r (snd (snd e))"
    with find_fstD [of t "timers s" e] have "e \<in> set (injectTimers r s)"
      by (simp add: injectTimers_def)
    with Cons.prems(3) show False by simp
  qed
  from Cons.prems have env: "isEnv ev" by simp
  from injView_step_frame [OF Cons.prems(1,2) env no]
  have v: "injView r (step s ev) = injView r s" .
  then have "scanSources r (step s ev) = []" and "injectTimers r (step s ev) = []"
    using Cons.prems(2,3) by (simp_all add: injView_def)
  from Cons.IH [OF scanInv_step [OF Cons.prems(1)] this] Cons.prems(4) v
  show ?case by (simp add: run_def)
qed

lemma count_sendLookup:
  "count_list es (Query (FindSendButton r)) = count_list (injectEvents r es) SendLookup"
  by (induction es)
     (auto simp: injectEvents_Cons injectEvent_def
        split: effect.splits query.splits callback.splits)

lemma count_failedLookups [simp]:
  "count_list (failedLookups k) SendLookup = k" "count_list (failedLookups k) Marked = 0"
  "length (filter isRetryEvent (failedLookups k)) = k"
  by (induction k) (simp_all add: failedLookups_Suc isRetryEvent_def)

lemma injectPhase_counts:
  assumes "injectPhase r s0 s"
  shows "count_list (trace s) (Query (FindSendButton r))
           \<le> count_list (trace s0) (Query (FindSendButton r)) + 8"
    and "length (filter isRetryEvent (injectEvents r (trace s)))
           \<le> length (filter isRetryEvent (injectEvents r (trace s0))) + 6"
    and "count_list (injectEvents r (trace s)) Marked
           \<le> count_list (injectEvents r (trace s0)) Marked + 1"
    and "count_list (trace s) (Query (FindSendButton r))
           + count_list (injectEvents r (trace s0)) Marked
           \<le> count_list (trace s0) (Query (FindSendButton r)) + 7
             + count_list (injectEvents r (trace s)) Marked"
  using assms
  by (auto simp: injectPhase_def injectPending_def injectInjected_def injectStopped_def
      injectGaveUp_def count_sendLookup isRetryEvent_def)


lemma tryInject_paths:
  "(getElement (document s) r = None \<longrightarrow> tryInjectWithRetry r n s = s)
   \<and> (getElement (document s) r = Some el \<and> hasAttribute el PROCESSED_ATTR \<longrightarrow>
        tryInjectWithRetry r n s = s)
   \<and> (getElement (document s) r = Some el \<and> \<not> hasAttribute el PROCESSED_ATTR
        \<and> findSendButton el = Some sb \<longrightarrow>
        tryInjectWithRetry r n s = injectButton el (emit [Query (FindSendButton r)] s))
   \<and> (getElement (document s) r = Some el \<and> \<not> hasAttribute el PROCESSED_ATTR
        \<and> findSendButton el = None \<and> 0 < n \<longrightarrow>
        tryInjectWithRetry r n s =
          setTimeout (InjectRetry r (n - 1)) 300 (emit [Query (FindSendButton r)] s)
        \<and> n - 1 < n)
   \<and> (getElement (document s) r = Some el \<and> \<not> hasAttribute el PROCESSED_ATTR
        \<and> findSendButton el = None \<and> n = 0 \<longrightarrow>
        tryInjectWithRetry r n s = emit [Query (FindSendButton r)] s)"
  by (simp add: tryInjectWithRetry_def Let_def)

text \<open>
  C10, as the claim states it, fails in its count of lookups. When an attempt of the
  wrapper finds the Send button it calls \<open>injectButton\<close>, which looks the button up
  again. On a compose window whose Send button appears just before the last retry, the
  wrapper's seven attempts make seven lookups and the injector an eighth.
\<close>

theorem eight_send_lookups:
  "count_list
     (trace (run (tryInjectWithRetry 2 6 exBare)
               [Fire 1, Fire 2, Fire 3, Fire 4, Fire 5, Host exDoc, Fire 6]))
     (Query (FindSendButton 2)) = 8
   \<and> injectEvents 2
        (trace (run (tryInjectWithRetry 2 6 exBare)
                  [Fire 1, Fire 2, Fire 3, Fire 4, Fire 5, Host exDoc, Fire 6]))
      = [SendLookup, RetryInject 5 300, SendLookup, RetryInject 4 300, SendLookup,
         RetryInject 3 300, SendLookup, RetryInject 2 300, SendLookup, RetryInject 1 300,
         SendLookup, RetryInject 0 300, SendLookup, SendLookup, Marked]"
  by code_simp

text \<open>
  C10, amended. Take a state with no retry timer pending for the region and no scan
  pending, and call the wrapper with the default budget; let the page change and timers
  and idle callbacks fire in any order. At every moment the entries the chain has added
  to the trace for this region are \<open>k\<close> failed attempts, each a lookup followed by a
  retry timer set with delay 300 and a remaining count one smaller than before, and then
  one of: nothing more, with exactly that retry timer pending (\<open>1 \<le> k \<le> 6\<close>); nothing
  more and no timer pending (an attempt found the region gone or processed); two lookups
  and the marker (the wrapper's lookup, then the injector's own lookup and marking); or,
  for \<open>k = 6\<close>, a seventh lookup and nothing else. So at most six retries are
  scheduled and at most seven attempts made, each with at most one lookup of the
  wrapper's own; the send-button finder is called at most eight times, the eighth only
  when the chain injects; the region is marked at most once; and once no retry timer is
  pending nothing more happens for the region. Each attempt takes one of the five paths
  of \<open>tryInjectWithRetry\<close>.
\<close>

theorem inject_retry_chain:
  assumes "scanInv s0" and "injectTimers r s0 = []" and "scanSources r s0 = []"
    and "\<forall>ev \<in> set evs. isEnv ev"
  shows "injectPhase r s0 (run (tryInjectWithRetry r 6 s0) evs)
   \<and> length (filter isRetryEvent (injectEvents r (trace (run (tryInjectWithRetry r 6 s0) evs))))
       \<le> length (filter isRetryEvent (injectEvents r (trace s0))) + 6
   \<and> count_list (trace (run (tryInjectWithRetry r 6 s0) evs)) (Query (FindSendButton r))
       \<le> count_list (trace s0) (Query (FindSendButton r)) + 8
   \<and> count_list (trace (run (tryInjectWithRetry r 6 s0) evs)) (Query (FindSendButton r))
         + count_list (injectEvents r (trace s0)) Marked
       \<le> count_list (trace s0) (Query (FindSendButton r)) + 7
         + count_list (injectEvents r (trace (run (tryInjectWithRetry r 6 s0) evs))) Marked
   \<and> count_list (injectEvents r (trace (run (tryInjectWithRetry r 6 s0) evs))) Marked
       \<le> count_list (injectEvents r (trace s0)) Marked + 1
   \<and> (injectTimers r (run (tryInjectWithRetry r 6 s0) evs) = [] \<longrightarrow>
        (\<forall>more. (\<forall>ev \<in> set more. isEnv ev) \<longrightarrow>
           injView r (run (run (tryInjectWithRetry r 6 s0) evs) more)
             = injView r (run (tryInjectWithRetry r 6 s0) evs)))
   \<and> (getElement (document s) r = None \<longrightarrow> tryInjectWithRetry r n s = s)
   \<and> (getElement (document s) r = Some el \<and> hasAttribute el PROCESSED_ATTR \<longrightarrow>
        tryInjectWithRetry r n s = s)
   \<and> (getElement (document s) r = Some el \<and> \<not> hasAttribute el PROCESSED_ATTR
        \<and> findSendButton el = Some sb \<longrightarrow>
        tryInjectWithRetry r n s = injectButton el (emit [Query (FindSendButton r)] s))
   \<and> (getElement (document s) r = Some el \<and> \<not> hasAttribute el PROCESSED_ATTR
        \<and> findSendButton el = None \<and> 0 < n \<longrightarrow>
        tryInjectWithRetry r n s =
          setTimeout (InjectRetry r (n - 1)) 300 (emit [Query (FindSendButton r)] s)
        \<and> n - 1 < n)
   \<and> (getElement (document s) r = Some el \<and> \<not> hasAttribute el PROCESSED_ATTR
        \<and> findSendButton el = None \<and> n = 0 \<longrightarrow>
        tryInjectWithRetry r n s = emit [Query (FindSendButton r)] s)"
proof -
  let ?s = "run (tryInjectWithRetry r 6 s0) evs"
  from injInv_run [OF injInv_start [OF assms(1-3)] assms(4)]
  have inv: "injInv r s0 ?s" .
  then have ph: "injectPhase r s0 ?s" and sc: "scanInv ?s" and src: "scanSources r ?s = []"
    by (simp_all add: injInv_def)
  have quiet: "injectTimers r ?s = [] \<longrightarrow>
        (\<forall>more. (\<forall>ev \<in> set more. isEnv ev) \<longrightarrow> injView r (run ?s more) = injView r ?s)"
    using inject_quiet_run [OF sc src] by blast
  from ph injectPhase_counts [OF ph] quiet tryInject_paths [of s r n el sb]
  show ?thesis by blast
qed

theorem inject_retry_chain_witness:
  "scanInv exBare \<and> injectTimers 2 exBare = [] \<and> scanSources 2 exBare = []
   \<and> isEnv (Fire 1) \<and> isEnv (Fire 2)
   \<and> injectPending 3 2 exBare (run (tryInjectWithRetry 2 6 exBare) [Fire 1, Fire 2])
   \<and> injectPhase 2 exBare (run (tryInjectWithRetry 2 6 exBare) [Fire 1, Fire 2])
   \<and> count_list (trace (run (tryInjectWithRetry 2 6 exBare) [Fire 1, Fire 2]))
        (Query (FindSendButton 2)) \<le> count_list (trace exBare) (Query (FindSendButton 2)) + 8
   \<and> scanInv exState \<and> injectTimers 2 exState = [] \<and> scanSources 2 exState = []
   \<and> injectInjected 0 2 exState (run (tryInjectWithRetry 2 6 exState) [])
   \<and> injectTimers 2 (run (tryInjectWithRetry 2 6 exState) []) = []
   \<and> injView 2 (run (run (tryInjectWithRetry 2 6 exState) []) [Fire 1, Fire 2])
       = injView 2 (run (tryInjectWithRetry 2 6 exState) [])
   \<and> getElement (document exState) 2 = Some exRegion
   \<and> \<not> hasAttribute exRegion PROCESSED_ATTR
   \<and> findSendButton exRegion = Some exSend
   \<and> tryInjectWithRetry 2 6 exState
       = injectButton exRegion (emit [Query (FindSendButton 2)] exState)"
proof -
  have h1: "scanInv exBare \<and> injectTimers 2 exBare = [] \<and> scanSources 2 exBare = []"
    by code_simp
  have h2: "isEnv (Fire 1) \<and> isEnv (Fire 2)" by (simp add: isEnv_def)
  then have h2': "\<forall>ev \<in> set [Fire 1, Fire 2]. isEnv ev" by simp
  have h3: "scanInv exState \<and> injectTimers 2 exState = [] \<and> scanSources 2 exState = []"
    by code_simp
  have h4: "\<forall>ev \<in> set ([] :: event list). isEnv ev" by simp
  have h5: "getElement (document exState) 2 = Some exRegion
            \<and> \<not> hasAttribute exRegion PROCESSED_ATTR \<and> findSendButton exRegion = Some exSend"
    by code_simp
  have p: "injectPending 3 2 exBare (run (tryInjectWithRetry 2 6 exBare) [Fire 1, Fire 2])"
    by code_simp
  have q: "injectInjected 0 2 exState (run (tryInjectWithRetry 2 6 exState) [])
           \<and> injectTimers 2 (run (tryInjectWithRetry 2 6 exState) []) = []"
    by code_simp
  from inject_retry_chain [of exBare 2 "[Fire 1, Fire 2]" exState 6 exRegion exSend] h1 h2' h5
  have a: "injectPhase 2 exBare (run (tryInjectWithRetry 2 6 exBare) [Fire 1, Fire 2])
     \<and> count_list (trace (run (tryInjectWithRetry 2 6 exBare) [Fire 1, Fire 2]))
        (Query (FindSendButton 2)) \<le> count_list (trace exBare) (Query (FindSendButton 2)) + 8
     \<and> tryInjectWithRetry 2 6 exState
       = injectButton exRegion (emit [Query (FindSendButton 2)] exState)"
    by blast
  from inject_retry_chain [of exState 2 "[]"] h3 h4 q h2'
  have b: "injView 2 (run (run (tryInjectWithRetry 2 6 exState) []) [Fire 1, Fire 2])
       = injView 2 (run (tryInjectWithRetry 2 6 exState) [])"
    by blast
  from h1 h2 h3 h5 p q a b show ?thesis by blast
qed

end
